theory Spec2Isabelle
  imports Main "HOL-Library.Sublist"
begin

section \<open>Bytes, substring search and compiled expressions\<close>

text \<open>
  Go strings and byte slices are sequences of bytes: \<open>string\<close> (a \<open>char list\<close>) here, and
  \<open>len\<close> is \<open>length\<close>. A byte slice that may be \<open>nil\<close> is a \<open>string option\<close>.
\<close>

abbreviation LF :: char where
  "LF \<equiv> CHR 0x0A"

abbreviation CR :: char where
  "CR \<equiv> CHR 0x0D"

text \<open>
  \<open>bytes.Index(data, sep)\<close> and \<open>strings.Cut(s, sep)\<close>: the index of the leftmost occurrence
  of \<open>sep\<close>, scanning from the left.
\<close>

fun bytes_Index :: "string \<Rightarrow> string \<Rightarrow> nat option" where
  "bytes_Index [] sep = (if sep = [] then Some 0 else None)"
| "bytes_Index (c # s) sep =
     (if prefix sep (c # s) then Some 0 else map_option Suc (bytes_Index s sep))"

text \<open>
  A compiled \<open>*regexp.Regexp\<close> is used by the repository only through \<open>FindIndex\<close>: it is
  modelled by its match function, from a buffer to the location \<open>(loc[0], loc[1])\<close> of the
  leftmost match. The library's contract \<open>0 \<le> loc[0] \<le> loc[1] \<le> len(data)\<close> is part of
  \<open>FindIndex\<close>. A pointer that may be \<open>nil\<close> is a \<open>regexp option\<close>.
\<close>

type_synonym regexp = "string \<Rightarrow> (nat \<times> nat) option"

definition FindIndex :: "regexp \<Rightarrow> string \<Rightarrow> (nat \<times> nat) option" where
  "FindIndex r data =
     (case r data of
        None \<Rightarrow> None
      | Some (a, b) \<Rightarrow> if a \<le> b \<and> b \<le> length data then Some (a, b) else None)"

text \<open>The error values of the standard library that the scanning code meets.\<close>

datatype go_error =
    EOF
  | ErrFinalToken
  | ErrTooLong
  | ErrNoProgress
  | ErrAdvanceTooFar
  | ErrNegativeAdvance
  | Canceled
  | DeadlineExceeded
  | Failure string

section \<open>The token/stop Delimiter\<close>

text \<open>
  \<^verbatim>\<open>type pattern struct { re *regexp.Regexp; str string }\<close> and
  \<^verbatim>\<open>type Delimiter struct { token pattern; stop pattern }\<close>.
\<close>

record pattern =
  re :: "regexp option"
  str :: string

record Delimiter =
  token :: pattern
  stop :: pattern

definition DefaultDelimiter :: Delimiter where
  "DefaultDelimiter =
     \<lparr>token = \<lparr>re = None, str = [LF]\<rparr>, stop = \<lparr>re = None, str = [LF, LF]\<rparr>\<rparr>"

definition NewDelimiter :: Delimiter where
  "NewDelimiter = DefaultDelimiter"

definition SetTokenRegexp :: "Delimiter \<Rightarrow> regexp option \<Rightarrow> Delimiter" where
  "SetTokenRegexp d regexpr = d\<lparr>token := (token d)\<lparr>re := regexpr, str := []\<rparr>\<rparr>"

definition SetTokenStr :: "Delimiter \<Rightarrow> string \<Rightarrow> Delimiter" where
  "SetTokenStr d s = d\<lparr>token := (token d)\<lparr>re := None, str := s\<rparr>\<rparr>"

definition SetStopRegexp :: "Delimiter \<Rightarrow> regexp option \<Rightarrow> Delimiter" where
  "SetStopRegexp d regexpr = d\<lparr>stop := (stop d)\<lparr>re := regexpr, str := []\<rparr>\<rparr>"

definition SetStopStr :: "Delimiter \<Rightarrow> string \<Rightarrow> Delimiter" where
  "SetStopStr d s = d\<lparr>stop := (stop d)\<lparr>re := None, str := s\<rparr>\<rparr>"

text \<open>
  The \<open>...FromString\<close> setters panic on the empty expression and where
  \<open>regexp.MustCompile\<close> panics. The compiler is a parameter \<open>compile\<close> (\<open>None\<close>: the
  expression does not compile); the panic is the result \<open>None\<close>.
\<close>

definition SetTokenRegexpFromString ::
  "(string \<Rightarrow> regexp option) \<Rightarrow> Delimiter \<Rightarrow> string \<Rightarrow> Delimiter option" where
  "SetTokenRegexpFromString compile d expr =
     (if expr = [] then None
      else case compile expr of
             None \<Rightarrow> None
           | Some regexpr \<Rightarrow> Some (d\<lparr>token := (token d)\<lparr>re := Some regexpr, str := []\<rparr>\<rparr>))"

definition SetStopRegexpFromString ::
  "(string \<Rightarrow> regexp option) \<Rightarrow> Delimiter \<Rightarrow> string \<Rightarrow> Delimiter option" where
  "SetStopRegexpFromString compile d expr =
     (if expr = [] then None
      else case compile expr of
             None \<Rightarrow> None
           | Some regexpr \<Rightarrow> Some (d\<lparr>stop := (stop d)\<lparr>re := Some regexpr, str := []\<rparr>\<rparr>))"

text \<open>The \<open>With...\<close> methods have a value receiver: they change and return a copy.\<close>

definition WithTokenRegexp :: "Delimiter \<Rightarrow> regexp option \<Rightarrow> Delimiter" where
  "WithTokenRegexp d regexpr = d\<lparr>token := \<lparr>re = regexpr, str = []\<rparr>\<rparr>"

definition WithTokenStr :: "Delimiter \<Rightarrow> string \<Rightarrow> Delimiter" where
  "WithTokenStr d s = d\<lparr>token := \<lparr>re = None, str = s\<rparr>\<rparr>"

definition WithTokenRegexpFromString ::
  "(string \<Rightarrow> regexp option) \<Rightarrow> Delimiter \<Rightarrow> string \<Rightarrow> Delimiter option" where
  "WithTokenRegexpFromString compile d s =
     (if s = [] then None
      else case compile s of
             None \<Rightarrow> None
           | Some regexpr \<Rightarrow> Some (d\<lparr>token := \<lparr>re = Some regexpr, str = []\<rparr>\<rparr>))"

definition WithStopRegexp :: "Delimiter \<Rightarrow> regexp option \<Rightarrow> Delimiter" where
  "WithStopRegexp d regexpr = d\<lparr>stop := \<lparr>re = regexpr, str = []\<rparr>\<rparr>"

definition WithStopStr :: "Delimiter \<Rightarrow> string \<Rightarrow> Delimiter" where
  "WithStopStr d s = d\<lparr>stop := \<lparr>re = None, str = s\<rparr>\<rparr>"

definition WithStopRegexpFromString ::
  "(string \<Rightarrow> regexp option) \<Rightarrow> Delimiter \<Rightarrow> string \<Rightarrow> Delimiter option" where
  "WithStopRegexpFromString compile d s =
     (if s = [] then None
      else case compile s of
             None \<Rightarrow> None
           | Some regexpr \<Rightarrow> Some (d\<lparr>stop := \<lparr>re = Some regexpr, str = []\<rparr>\<rparr>))"

text \<open>\<^verbatim>\<open>return p.re != nil || p.str != ""\<close>\<close>

definition enabled :: "pattern \<Rightarrow> bool" where
  "enabled p = (if re p = None then str p \<noteq> [] else True)"

text \<open>
  \<open>find\<close> returns \<open>(idx, width)\<close>, \<open>(-1, 0)\<close> when there is no match. (Its receiver is the
  address of a field, never \<open>nil\<close>.)
\<close>

definition find_pat :: "pattern \<Rightarrow> string \<Rightarrow> int \<times> int" where
  "find_pat p data =
     (case re p of
        Some r \<Rightarrow>
          (case FindIndex r data of
             None \<Rightarrow> (- 1, 0)
           | Some (a, b) \<Rightarrow> (int a, int b - int a))
      | None \<Rightarrow>
          if str p \<noteq> [] then
            (case bytes_Index data (str p) of
               None \<Rightarrow> (- 1, 0)
             | Some i \<Rightarrow> (int i, int (length (str p))))
          else (- 1, 0))"

text \<open>
  The split function handed to \<open>bufio.Scanner\<close>: from the buffered bytes and the end-of-input
  flag to \<open>(advance, token, err)\<close>.
\<close>

type_synonym split_result = "int \<times> string option \<times> go_error option"

definition SplitFunc :: "Delimiter \<Rightarrow> string \<Rightarrow> bool \<Rightarrow> split_result" where
  "SplitFunc d data atEOF =
     (if atEOF \<and> length data = 0 then (0, None, Some ErrFinalToken)
      else
        let (tokenIdx, tokenW) = find_pat (token d) data;
            (stopIdx, stopW) = (if enabled (stop d) then find_pat (stop d) data else (- 1, 0))
        in
          if 0 \<le> stopIdx \<and> (tokenIdx < 0 \<or> stopIdx < tokenIdx) then
            (if 0 < stopIdx then (stopIdx, Some (take (nat stopIdx) data), None)
             else (stopW, None, Some ErrFinalToken))
          else if 0 \<le> tokenIdx then
            (tokenIdx + tokenW, Some (take (nat tokenIdx) data), None)
          else if atEOF then (int (length data), Some data, None)
          else (0, None, None))"

section \<open>The single-pattern Delimiter\<close>

text \<open>
  The sibling \<^verbatim>\<open>type Delimiter struct { regexpr *regexp.Regexp; str string }\<close> with its
  setters; names that clash with the token/stop Delimiter carry the suffix \<open>_v1\<close>.
  \<open>re_newline\<close> is the compiled expression of \<^verbatim>\<open>regexp.MustCompile("\n")\<close>: it matches one
  line feed.
\<close>

record Delimiter_v1 =
  regexpr :: "regexp option"
  str_v1 :: string

definition re_newline :: regexp where
  "re_newline data = map_option (\<lambda>i. (i, i + 1)) (bytes_Index data [LF])"

definition DefaultDelimiter_v1 :: Delimiter_v1 where
  "DefaultDelimiter_v1 = \<lparr>regexpr = None, str_v1 = [LF]\<rparr>"

definition SetRegexp :: "Delimiter_v1 \<Rightarrow> regexp option \<Rightarrow> Delimiter_v1" where
  "SetRegexp d r =
     (if r = None then d\<lparr>regexpr := Some re_newline, str_v1 := []\<rparr>
      else d\<lparr>regexpr := r, str_v1 := []\<rparr>)"

definition SetStr :: "Delimiter_v1 \<Rightarrow> string \<Rightarrow> Delimiter_v1" where
  "SetStr d s = (let s = (if s = [] then [LF] else s) in d\<lparr>regexpr := None, str_v1 := s\<rparr>)"

definition SetRegexpFromString ::
  "(string \<Rightarrow> regexp option) \<Rightarrow> Delimiter_v1 \<Rightarrow> string \<Rightarrow> Delimiter_v1 option" where
  "SetRegexpFromString compile d expr =
     (case compile expr of
        None \<Rightarrow> None
      | Some r \<Rightarrow> Some (d\<lparr>regexpr := Some r, str_v1 := []\<rparr>))"

definition WithRegexp :: "Delimiter_v1 \<Rightarrow> regexp option \<Rightarrow> Delimiter_v1" where
  "WithRegexp d r = SetRegexp d r"

definition WithStr :: "Delimiter_v1 \<Rightarrow> string \<Rightarrow> Delimiter_v1" where
  "WithStr d s = SetStr d s"

definition WithRegexpFromString ::
  "(string \<Rightarrow> regexp option) \<Rightarrow> Delimiter_v1 \<Rightarrow> string \<Rightarrow> Delimiter_v1 option" where
  "WithRegexpFromString compile d s = SetRegexpFromString compile d s"

section \<open>Byte sources and the standard scanner\<close>

text \<open>
  An \<open>io.Reader\<close> is modelled by the results of its successive \<open>Read\<close> calls: the bytes
  delivered and the error returned with them (\<open>None\<close> for \<open>nil\<close>). A source whose list
  is used up reports \<open>(0, io.EOF)\<close>. How a source cuts its bytes into reads is left open:
  the statements below quantify over every list of reads.
\<close>

type_synonym read_result = "string \<times> go_error option"

type_synonym source = "read_result list"

text \<open>
  \<open>strings.NewReader(s)\<close> and \<open>bytes.NewReader(b)\<close>: every \<open>Read\<close> delivers what fits the
  caller's buffer, and \<open>(0, io.EOF)\<close> once nothing is left. The scanner's first buffer has
  4096 bytes, so a string up to that length arrives in one read, as here. A longer string
  arrives in several reads, whose sizes follow the scanner's buffer; these two definitions
  stand for strings of at most 4096 bytes, and longer inputs are covered by the statements
  over every list of reads.
\<close>

definition strings_NewReader :: "string \<Rightarrow> source" where
  "strings_NewReader s = (if s = [] then [] else [(s, None)])"

definition bytes_NewReader :: "string \<Rightarrow> source" where
  "bytes_NewReader b = (if b = [] then [] else [(b, None)])"

text \<open>
  \<open>io.MultiReader\<close>: the readers one after the other; the \<open>io.EOF\<close> of a reader moves on to
  the next one and is reported only after the last.
\<close>

fun MultiReader :: "source list \<Rightarrow> source" where
  "MultiReader [] = []"
| "MultiReader ([] # rs) = MultiReader rs"
| "MultiReader (((c, e) # r) # rs) =
     (if e = Some EOF then
        (if c \<noteq> [] then (c, if rs = [] then Some EOF else None) # MultiReader rs
         else MultiReader rs)
      else (c, e) # MultiReader (r # rs))"

text \<open>
  \<open>bufio.Scanner\<close> with its default buffer. \<open>s_buf\<close> is the unconsumed part
  \<open>s.buf[s.start:s.end]\<close>; the buffer grows up to \<open>MaxScanTokenSize\<close>, so the scanner gives
  up with \<open>ErrTooLong\<close> when the split function asks for more than that many unconsumed
  bytes. The counter of empty tokens at end of input (a panic after 100 of them in a row) is
  left out: the loops below stop at the first empty token.
\<close>

definition MaxScanTokenSize :: nat where
  "MaxScanTokenSize = 64 * 1024"

definition maxConsecutiveEmptyReads :: nat where
  "maxConsecutiveEmptyReads = 100"

type_synonym split_fn = "string \<Rightarrow> bool \<Rightarrow> split_result"

record Scanner =
  s_r :: source
  s_buf :: string
  s_token :: "string option"
  s_err :: "go_error option"
  s_done :: bool

definition NewScanner :: "source \<Rightarrow> Scanner" where
  "NewScanner r = \<lparr>s_r = r, s_buf = [], s_token = None, s_err = None, s_done = False\<rparr>"

definition setErr :: "go_error \<Rightarrow> Scanner \<Rightarrow> Scanner" where
  "setErr e s = (if s_err s = None \<or> s_err s = Some EOF then s\<lparr>s_err := Some e\<rparr> else s)"

definition Scanner_Err :: "Scanner \<Rightarrow> go_error option" where
  "Scanner_Err s = (if s_err s = Some EOF then None else s_err s)"

definition Text :: "Scanner \<Rightarrow> string" where
  "Text s = (case s_token s of None \<Rightarrow> [] | Some t \<Rightarrow> t)"

text \<open>
  The inner read loop of \<open>Scan\<close>: read until bytes or an error arrive, giving up with
  \<open>io.ErrNoProgress\<close> after too many empty reads. It returns the bytes read, the error to
  record and the rest of the source.
\<close>

fun fill :: "nat \<Rightarrow> source \<Rightarrow> string \<times> go_error option \<times> source" where
  "fill loop [] = ([], Some EOF, [])"
| "fill loop ((c, e) # rs) =
     (if e \<noteq> None then (c, e, rs)
      else if c \<noteq> [] then (c, None, rs)
      else if maxConsecutiveEmptyReads < Suc loop then ([], Some ErrNoProgress, rs)
      else fill (Suc loop) rs)"

datatype scan_step = Return bool Scanner | More Scanner

text \<open>The first half of one round of \<open>Scan\<close>: offer the buffered bytes to the split function.\<close>

definition try_split :: "split_fn \<Rightarrow> Scanner \<Rightarrow> scan_step" where
  "try_split split s =
     (if s_buf s = [] \<and> s_err s = None then More s
      else
        (case split (s_buf s) (s_err s \<noteq> None) of
           (advance, tok, e) \<Rightarrow>
             (case e of
                Some x \<Rightarrow>
                  if x = ErrFinalToken
                  then Return (tok \<noteq> None) (s\<lparr>s_token := tok, s_done := True\<rparr>)
                  else Return False (setErr x s)
              | None \<Rightarrow>
                  if advance < 0 then Return False (setErr ErrNegativeAdvance s)
                  else if int (length (s_buf s)) < advance
                  then Return False (setErr ErrAdvanceTooFar s)
                  else
                    let s' = s\<lparr>s_buf := drop (nat advance) (s_buf s), s_token := tok\<rparr>
                    in if tok \<noteq> None then Return True s' else More s')))"

function Scan_loop :: "split_fn \<Rightarrow> Scanner \<Rightarrow> bool \<times> Scanner" where
  "Scan_loop split s =
     (case try_split split s of
        Return b s' \<Rightarrow> (b, s')
      | More s' \<Rightarrow>
          if s_err s' \<noteq> None then (False, s'\<lparr>s_buf := []\<rparr>)
          else if MaxScanTokenSize \<le> length (s_buf s') then (False, setErr ErrTooLong s')
          else
            (case fill 0 (s_r s') of
               (c, e, rs) \<Rightarrow>
                 Scan_loop split
                   (let s'' = s'\<lparr>s_r := rs, s_buf := s_buf s' @ c\<rparr>
                    in case e of None \<Rightarrow> s'' | Some x \<Rightarrow> setErr x s'')))"
  by pat_completeness auto

lemma try_split_More:
  "try_split split s = More s' \<Longrightarrow> s_r s' = s_r s \<and> s_err s' = s_err s"
  by (auto simp: try_split_def Let_def split: if_splits prod.splits option.splits)

lemma fill_shorter:
  "fill loop rs = (c, e, rs') \<Longrightarrow> (e = None \<longrightarrow> length rs' < length rs) \<and> length rs' \<le> length rs"
  by (induction loop rs rule: fill.induct) (auto split: if_splits)

termination Scan_loop
  apply (relation "measure (\<lambda>(split, s). 2 * length (s_r s) + (if s_err s = None then 1 else 0))")
   apply simp
  subgoal for split s x2 x y xa ya
    using try_split_More[of split s x2] fill_shorter[of 0 "s_r x2" x xa ya]
    by (cases xa) (auto simp: setErr_def)
  done

declare Scan_loop.simps [simp del]

definition Scan :: "split_fn \<Rightarrow> Scanner \<Rightarrow> bool \<times> Scanner" where
  "Scan split s = (if s_done s then (False, s) else Scan_loop split s)"

section \<open>The Reader\<close>

text \<open>
  \<open>NormalizeFunc\<close> and \<open>FilterFunc\<close> are function values that may be \<open>nil\<close>. The fields
  \<open>normalize\<close> and \<open>filter\<close> carry the suffix \<open>f\<close> here.
\<close>

record Reader =
  reader :: source
  delimiter :: "regexp option"
  delimiterStr :: string
  normalizef :: "(string \<Rightarrow> string) option"
  filterf :: "(string \<Rightarrow> bool) option"
  FailOnError :: bool
  FailOnInvalid :: bool

text \<open>
  \<open>strings.TrimSpace\<close> on the ASCII white space \<open>\t \n \v \f \r\<close> and the blank. (Go also
  trims the UTF-8 encodings of the other Unicode spaces.)
\<close>

definition isSpace :: "char \<Rightarrow> bool" where
  "isSpace c = (c = CHR 0x09 \<or> c = LF \<or> c = CHR 0x0B \<or> c = CHR 0x0C \<or> c = CR \<or> c = CHR '' '')"

definition NormalizeTrimSpace :: "string \<Rightarrow> string" where
  "NormalizeTrimSpace s = rev (dropWhile isSpace (rev (dropWhile isSpace s)))"

definition ChainNormalizers :: "(string \<Rightarrow> string) list \<Rightarrow> string \<Rightarrow> string" where
  "ChainNormalizers ns s = fold (\<lambda>n s. n s) ns s"

definition FilterNonEmpty :: "string \<Rightarrow> bool" where
  "FilterNonEmpty s = (NormalizeTrimSpace s \<noteq> [])"

definition FilterMinLength :: "int \<Rightarrow> string \<Rightarrow> bool" where
  "FilterMinLength n s = (n \<le> int (length s))"

definition FilterMaxLength :: "int \<Rightarrow> string \<Rightarrow> bool" where
  "FilterMaxLength n s = (int (length s) \<le> n)"

text \<open>\<open>NewReader\<close> reads from \<open>os.Stdin\<close>, a parameter here.\<close>

definition NewReader :: "source \<Rightarrow> Reader" where
  "NewReader stdin =
     \<lparr>reader = stdin, delimiter = None, delimiterStr = [LF],
      normalizef = Some NormalizeTrimSpace, filterf = None,
      FailOnError = True, FailOnInvalid = False\<rparr>"

definition SetReaders :: "Reader \<Rightarrow> source list \<Rightarrow> Reader" where
  "SetReaders r readers = r\<lparr>reader := MultiReader readers\<rparr>"

definition AddReaders :: "Reader \<Rightarrow> source list \<Rightarrow> Reader" where
  "AddReaders r readers = SetReaders r (reader r # readers)"

definition SetDelimiterStr :: "Reader \<Rightarrow> string \<Rightarrow> Reader" where
  "SetDelimiterStr r s =
     (let s = (if s = [] then [LF] else s) in r\<lparr>delimiterStr := s, delimiter := None\<rparr>)"

definition SetDelimiter :: "Reader \<Rightarrow> regexp option \<Rightarrow> Reader" where
  "SetDelimiter r rx = r\<lparr>delimiter := rx, delimiterStr := []\<rparr>"

definition SetDelimiterFromString ::
  "(string \<Rightarrow> regexp option) \<Rightarrow> Reader \<Rightarrow> string \<Rightarrow> Reader option" where
  "SetDelimiterFromString compile r expr =
     (case compile expr of
        None \<Rightarrow> None
      | Some rx \<Rightarrow> Some (r\<lparr>delimiter := Some rx, delimiterStr := []\<rparr>))"

definition SetNormalizer :: "Reader \<Rightarrow> (string \<Rightarrow> string) option \<Rightarrow> Reader" where
  "SetNormalizer r normalizeFunc = r\<lparr>normalizef := normalizeFunc\<rparr>"

definition SetFilter :: "Reader \<Rightarrow> (string \<Rightarrow> bool) option \<Rightarrow> Reader" where
  "SetFilter r filterFunc = r\<lparr>filterf := filterFunc\<rparr>"

text \<open>
  The builders copy the struct (\<^verbatim>\<open>newR := *r\<close>), call the setter on the copy and return its
  address: as functions on values, the setter applied to the receiver's value.
\<close>

definition FromString :: "Reader \<Rightarrow> string \<Rightarrow> Reader" where
  "FromString r s = SetReaders r [strings_NewReader s]"

definition FromBytes :: "Reader \<Rightarrow> string \<Rightarrow> Reader" where
  "FromBytes r b = SetReaders r [bytes_NewReader b]"

definition WithDelimiter :: "Reader \<Rightarrow> regexp option \<Rightarrow> Reader" where
  "WithDelimiter r rx = SetDelimiter r rx"

definition WithDelimiterStr :: "Reader \<Rightarrow> string \<Rightarrow> Reader" where
  "WithDelimiterStr r s = SetDelimiterStr r s"

definition WithNormalizer :: "Reader \<Rightarrow> (string \<Rightarrow> string) option \<Rightarrow> Reader" where
  "WithNormalizer r n = SetNormalizer r n"

definition WithFilter :: "Reader \<Rightarrow> (string \<Rightarrow> bool) option \<Rightarrow> Reader" where
  "WithFilter r f = SetFilter r f"

definition WithReaders :: "Reader \<Rightarrow> source list \<Rightarrow> Reader" where
  "WithReaders r readers = SetReaders r readers"

subsection \<open>The split function\<close>

definition dropCR :: "string \<Rightarrow> string" where
  "dropCR data = (if data \<noteq> [] \<and> last data = CR then butlast data else data)"

text \<open>\<open>bufio.ScanLines\<close>, the fallback when no delimiter is set at all.\<close>

definition ScanLines :: split_fn where
  "ScanLines data atEOF =
     (if atEOF \<and> length data = 0 then (0, None, None)
      else
        (case bytes_Index data [LF] of
           Some i \<Rightarrow> (int i + 1, Some (dropCR (take i data)), None)
         | None \<Rightarrow>
             if atEOF then (int (length data), Some (dropCR data), None)
             else (0, None, None)))"

text \<open>
  \<open>createSplitFunc\<close>. The closure's last branch (a panic when both delimiter fields are
  empty) cannot be reached behind the guard that returns \<open>bufio.ScanLines\<close>, and has no
  counterpart here.
\<close>

definition createSplitFunc :: "Reader \<Rightarrow> split_fn" where
  "createSplitFunc r =
     (if delimiter r = None \<and> delimiterStr r = [] then ScanLines
      else
        (\<lambda>data atEOF.
           if atEOF \<and> length data = 0 then (0, None, None)
           else
             (case (case delimiter r of
                      Some rx \<Rightarrow> FindIndex rx data
                    | None \<Rightarrow>
                        map_option (\<lambda>i. (i, i + length (delimiterStr r)))
                          (bytes_Index data (delimiterStr r))) of
                Some (a, b) \<Rightarrow> (int b, Some (take a data), None)
              | None \<Rightarrow>
                  if atEOF then (int (length data), Some data, None)
                  else (0, None, None))))"

subsection \<open>Errors\<close>

text \<open>
  \<open>ReaderError\<close> with its sentinel kinds. The fields \<open>FileName\<close>, \<open>FuncName\<close> and
  \<open>ErrorLine\<close> come from \<open>runtime.Caller\<close>; they depend on the call stack alone and are
  left out. \<open>newErrClose\<close> is not among the sources.
\<close>

datatype kind = ErrInvalid | ErrRead | ErrClose

record ReaderError =
  Kind :: kind
  Err :: "go_error option"
  Token :: string
  Index :: int

definition newErrInvalid :: "string \<Rightarrow> int \<Rightarrow> ReaderError" where
  "newErrInvalid tok index = \<lparr>Kind = ErrInvalid, Err = None, Token = tok, Index = index\<rparr>"

definition newErrRead :: "go_error \<Rightarrow> ReaderError" where
  "newErrRead e = \<lparr>Kind = ErrRead, Err = Some e, Token = [], Index = - 1\<rparr>"

text \<open>Modelled from the spec: \<open>newErrClose\<close>, the Close error wrapping its cause, built as
  \<open>newErrRead\<close> is.\<close>

definition newErrClose :: "go_error \<Rightarrow> ReaderError" where
  "newErrClose e = \<lparr>Kind = ErrClose, Err = Some e, Token = [], Index = - 1\<rparr>"

subsection \<open>Batch reading\<close>

text \<open>What follows the loop: the scanner's error, if any, decides the result.\<close>

definition ReadTokens_end :: "Reader \<Rightarrow> Scanner \<Rightarrow> string list \<Rightarrow> string list \<times> ReaderError option" where
  "ReadTokens_end r scanner tokens =
     (case Scanner_Err scanner of
        Some e \<Rightarrow> if FailOnError r then (tokens, Some (newErrRead e)) else (tokens, None)
      | None \<Rightarrow> (tokens, None))"

definition rejected :: "Reader \<Rightarrow> string \<Rightarrow> bool" where
  "rejected r tok = (case filterf r of None \<Rightarrow> False | Some f \<Rightarrow> \<not> f tok)"

definition normalized :: "Reader \<Rightarrow> string \<Rightarrow> string" where
  "normalized r tok = (case normalizef r of None \<Rightarrow> tok | Some nf \<Rightarrow> nf tok)"

text \<open>
  The loop of \<open>ReadTokens\<close> ends because a non-empty token moves the scanner forward: the
  bytes not yet consumed, buffered or still to be read, become fewer.
\<close>

definition bytes_left :: "Scanner \<Rightarrow> nat" where
  "bytes_left s = length (s_buf s) + sum_list (map (\<lambda>x. length (fst x)) (s_r s))"

lemma fill_bytes:
  "fill loop rs = (c, e, rs') \<Longrightarrow>
     length c + sum_list (map (\<lambda>x. length (fst x)) rs') \<le> sum_list (map (\<lambda>x. length (fst x)) rs)"
  by (induction loop rs rule: fill.induct) (auto split: if_splits)

lemma bytes_left_setErr [simp]: "bytes_left (setErr e s) = bytes_left s"
  by (simp add: bytes_left_def setErr_def)

lemma try_split_More_bytes:
  "try_split split s = More s' \<Longrightarrow> bytes_left s' \<le> bytes_left s"
  by (auto simp: try_split_def Let_def bytes_left_def split: if_splits prod.splits option.splits)

text \<open>A split function makes progress when a non-empty token comes with a positive advance
  and without an error.\<close>

definition progressing :: "split_fn \<Rightarrow> bool" where
  "progressing split =
     (\<forall>data atEOF. case split data atEOF of
        (advance, tok, e) \<Rightarrow>
          (case tok of None \<Rightarrow> True | Some t \<Rightarrow> e = None \<and> (if t = [] then True else 0 < advance)))"

lemma try_split_Return_bytes:
  assumes "progressing split" "try_split split s = Return True s'" "Text s' \<noteq> []"
  shows "bytes_left s' < bytes_left s"
proof -
  obtain advance tok e where sp: "split (s_buf s) (s_err s \<noteq> None) = (advance, tok, e)"
    by (cases "split (s_buf s) (s_err s \<noteq> None)") auto
  from assms(1) have p: "case tok of None \<Rightarrow> True | Some t \<Rightarrow> e = None \<and> (if t = [] then True else 0 < advance)"
    unfolding progressing_def using sp
    by (metis (mono_tags, lifting) case_prod_conv)
  from assms(2,3) sp p show ?thesis
    by (auto simp: try_split_def Let_def bytes_left_def Text_def
        split: if_splits option.splits)
qed

lemma Scan_loop_bytes:
  "progressing split \<Longrightarrow> Scan_loop split s = (True, s') \<Longrightarrow> Text s' \<noteq> [] \<Longrightarrow>
     bytes_left s' < bytes_left s"
proof (induction split s rule: Scan_loop.induct)
  case (1 split s)
  note IH = 1(1) and pr = 1(2) and run = 1(3) and ne = 1(4)
  show ?case
  proof (cases "try_split split s")
    case (Return b s1)
    with run have "b = True" "s1 = s'" by (simp_all add: Scan_loop.simps)
    with Return pr ne show ?thesis
      using try_split_Return_bytes by blast
  next
    case (More s1)
    from run More have c1: "s_err s1 = None" and c2: "\<not> MaxScanTokenSize \<le> length (s_buf s1)"
      by (auto simp: Scan_loop.simps split: if_splits)
    obtain c e rs where f: "fill 0 (s_r s1) = (c, e, rs)"
      by (cases "fill 0 (s_r s1)") auto
    define s2 where "s2 = (let s'' = s1\<lparr>s_r := rs, s_buf := s_buf s1 @ c\<rparr>
                    in case e of None \<Rightarrow> s'' | Some x \<Rightarrow> setErr x s'')"
    from run More c1 c2 f have r: "Scan_loop split s2 = (True, s')"
      by (simp add: s2_def Scan_loop.simps)
    have "bytes_left s' < bytes_left s2"
      using IH[OF More _ c2 f[symmetric] refl pr] c1 r ne
      by (simp add: s2_def)
    moreover have "bytes_left s2 \<le> bytes_left s1"
      using fill_bytes[OF f] by (cases e) (auto simp: s2_def bytes_left_def Let_def setErr_def)
    moreover have "bytes_left s1 \<le> bytes_left s"
      using try_split_More_bytes[OF More] .
    ultimately show ?thesis by simp
  qed
qed

lemma FindIndex_bounds: "FindIndex r data = Some (a, b) \<Longrightarrow> a \<le> b \<and> b \<le> length data"
  by (auto simp: FindIndex_def split: option.splits if_splits)

lemma bytes_Index_bounds: "bytes_Index data sep = Some i \<Longrightarrow> i + length sep \<le> length data"
proof (induction data arbitrary: i)
  case Nil
  then show ?case by (auto split: if_splits)
next
  case (Cons c data)
  then show ?case by (auto split: if_splits dest: prefix_length_le)
qed

lemma createSplitFunc_progressing: "progressing (createSplitFunc r)"
  unfolding progressing_def createSplitFunc_def ScanLines_def
  by (auto split: option.splits if_splits prod.splits dest!: FindIndex_bounds bytes_Index_bounds simp: dropCR_def)

lemma Scan_bytes:
  "Scan (createSplitFunc r) s = (True, s') \<Longrightarrow> Text s' \<noteq> [] \<Longrightarrow> bytes_left s' < bytes_left s"
  using Scan_loop_bytes[OF createSplitFunc_progressing]
  by (auto simp: Scan_def split: if_splits)

text \<open>
  The loop of \<open>ReadTokens\<close>, from the scanner, the tokens accepted so far and the running
  offset \<open>n\<close>. A non-empty token moves the scanner forward, so the loop ends.
\<close>

function ReadTokens_loop ::
  "Reader \<Rightarrow> Scanner \<Rightarrow> string list \<Rightarrow> int \<Rightarrow> string list \<times> ReaderError option" where
  "ReadTokens_loop r scanner tokens n =
     (case Scan (createSplitFunc r) scanner of
        (False, scanner') \<Rightarrow> ReadTokens_end r scanner' tokens
      | (True, scanner') \<Rightarrow>
          if Text scanner' = [] then ReadTokens_end r scanner' tokens
          else
            let tok = normalized r (Text scanner') in
            if rejected r tok then
              (if FailOnInvalid r then (tokens, Some (newErrInvalid tok n))
               else ReadTokens_loop r scanner' tokens (n + int (length tok)))
            else ReadTokens_loop r scanner' (tokens @ [tok]) (n + int (length tok)))"
  by pat_completeness auto

termination ReadTokens_loop
  by (relation "measure (\<lambda>(r, s, tokens, n). bytes_left s)") (auto dest: Scan_bytes[OF sym])

declare ReadTokens_loop.simps [simp del]

definition ReadTokens :: "Reader \<Rightarrow> string list \<times> ReaderError option" where
  "ReadTokens r = ReadTokens_loop r (NewScanner (reader r)) [] 0"

subsection \<open>Streaming\<close>

text \<open>
  The \<open>select\<close> of \<open>StreamTokens\<close> waits until the send on \<open>out\<close> or the receive from
  \<open>ctx.Done()\<close> can proceed, and takes one that can; when both can, the choice is not
  determined. The environment says, for the k-th handoff of a call, which of the two can
  proceed when the \<open>select\<close> is resolved, and which one is taken when both can. When neither
  ever can, the call blocks.
\<close>

record handoff =
  can_send :: bool
  ctx_done :: bool
  pick_send :: bool

datatype select_outcome = Sent | Cancelled | Blocks

definition select_out :: "handoff \<Rightarrow> select_outcome" where
  "select_out h =
     (if can_send h \<and> ctx_done h then (if pick_send h then Sent else Cancelled)
      else if can_send h then Sent
      else if ctx_done h then Cancelled
      else Blocks)"

text \<open>The \<open>error\<close> returned by \<open>StreamTokens\<close> is a \<open>*ReaderError\<close> or the context's own error.\<close>

datatype error = ReaderErr ReaderError | CtxErr go_error

datatype stream_result = Returned "error option" | Blocked

definition StreamTokens_end :: "Reader \<Rightarrow> Scanner \<Rightarrow> stream_result" where
  "StreamTokens_end r scanner =
     (case Scanner_Err scanner of
        Some e \<Rightarrow> if FailOnError r then Returned (Some (ReaderErr (newErrRead e))) else Returned None
      | None \<Rightarrow> Returned None)"

text \<open>
  The loop of \<open>StreamTokens\<close>; \<open>out\<close> lists the tokens sent on the channel so far, so its
  length is the number of the next handoff. \<open>ctx_Err\<close> is the value of \<open>ctx.Err()\<close> once the
  context is done.
\<close>

function StreamTokens_loop ::
  "Reader \<Rightarrow> go_error \<Rightarrow> (nat \<Rightarrow> handoff) \<Rightarrow> Scanner \<Rightarrow> string list \<Rightarrow> int \<Rightarrow>
     string list \<times> stream_result" where
  "StreamTokens_loop r ctx_Err env scanner out n =
     (case Scan (createSplitFunc r) scanner of
        (False, scanner') \<Rightarrow> (out, StreamTokens_end r scanner')
      | (True, scanner') \<Rightarrow>
          if Text scanner' = [] then (out, StreamTokens_end r scanner')
          else
            let tok = normalized r (Text scanner') in
            if rejected r tok then
              (if FailOnInvalid r then (out, Returned (Some (ReaderErr (newErrInvalid tok n))))
               else StreamTokens_loop r ctx_Err env scanner' out (n + int (length tok)))
            else
              (case select_out (env (length out)) of
                 Sent \<Rightarrow> StreamTokens_loop r ctx_Err env scanner' (out @ [tok]) (n + int (length tok))
               | Cancelled \<Rightarrow> (out, Returned (Some (CtxErr ctx_Err)))
               | Blocks \<Rightarrow> (out, Blocked)))"
  by pat_completeness auto

termination StreamTokens_loop
  by (relation "measure (\<lambda>(r, c, env, s, out, n). bytes_left s)") (auto dest: Scan_bytes[OF sym])

declare StreamTokens_loop.simps [simp del]

definition StreamTokens ::
  "Reader \<Rightarrow> go_error \<Rightarrow> (nat \<Rightarrow> handoff) \<Rightarrow> string list \<times> stream_result" where
  "StreamTokens r ctx_Err env = StreamTokens_loop r ctx_Err env (NewScanner (reader r)) [] 0"

section \<open>The ReaderCloser\<close>

text \<open>
  The Reader that the ReaderCloser embeds holds its delimiters as \<open>*Delimiter\<close> of the
  single-pattern type; its names carry the suffix \<open>_v1\<close>.
\<close>

record Reader_v1 =
  reader_v1 :: source
  delimiter_v1 :: "Delimiter_v1 option"
  endDelimiter :: "Delimiter_v1 option"
  normalize_v1 :: "(string \<Rightarrow> string) option"
  filter_v1 :: "(string \<Rightarrow> bool) option"
  FailOnError_v1 :: bool
  FailOnInvalid_v1 :: bool

definition NewReader_v1 :: "source \<Rightarrow> Reader_v1" where
  "NewReader_v1 stdin =
     \<lparr>reader_v1 = stdin, delimiter_v1 = Some DefaultDelimiter_v1, endDelimiter = None,
      normalize_v1 = Some NormalizeTrimSpace, filter_v1 = None,
      FailOnError_v1 = True, FailOnInvalid_v1 = False\<rparr>"

definition SetReaders_v1 :: "Reader_v1 \<Rightarrow> source list \<Rightarrow> Reader_v1" where
  "SetReaders_v1 r readers = r\<lparr>reader_v1 := MultiReader readers\<rparr>"

definition SetDelimiter_v1 :: "Reader_v1 \<Rightarrow> Delimiter_v1 option \<Rightarrow> Reader_v1" where
  "SetDelimiter_v1 r d = r\<lparr>delimiter_v1 := d\<rparr>"

definition SetEndDelimiter :: "Reader_v1 \<Rightarrow> Delimiter_v1 option \<Rightarrow> Reader_v1" where
  "SetEndDelimiter r d = r\<lparr>endDelimiter := d\<rparr>"

definition SetNormalizer_v1 :: "Reader_v1 \<Rightarrow> (string \<Rightarrow> string) option \<Rightarrow> Reader_v1" where
  "SetNormalizer_v1 r normalizeFunc = r\<lparr>normalize_v1 := normalizeFunc\<rparr>"

definition SetFilter_v1 :: "Reader_v1 \<Rightarrow> (string \<Rightarrow> bool) option \<Rightarrow> Reader_v1" where
  "SetFilter_v1 r filterFunc = r\<lparr>filter_v1 := filterFunc\<rparr>"

text \<open>
  \<^verbatim>\<open>type ReaderCloser struct { *Reader; closers []io.Closer }\<close>: the Reader is embedded by
  pointer, so the model has a store. A \<open>*Reader\<close> is an address of the heap of Readers; an
  \<open>io.Closer\<close> is the number of a resource of the world, which counts how often each
  resource has been closed and logs the \<open>Close\<close> calls in order. What a resource's \<open>Close\<close>
  returns is a parameter \<open>cl\<close>: from the resource and the number of its earlier closes to
  the error (\<open>None\<close> for \<open>nil\<close>).
\<close>

record world =
  heap :: "nat \<Rightarrow> Reader_v1"
  fresh :: nat
  closes :: "nat \<Rightarrow> nat"
  close_log :: "nat list"

record ReaderCloser =
  Reader_ptr :: nat
  closers :: "nat list"

type_synonym close_fn = "nat \<Rightarrow> nat \<Rightarrow> go_error option"

definition closer_Close :: "close_fn \<Rightarrow> nat \<Rightarrow> world \<Rightarrow> go_error option \<times> world" where
  "closer_Close cl c w =
     (cl c (closes w c),
      w\<lparr>closes := (closes w)(c := Suc (closes w c)), close_log := close_log w @ [c]\<rparr>)"

definition NewReaderCloser :: "source \<Rightarrow> world \<Rightarrow> ReaderCloser \<times> world" where
  "NewReaderCloser stdin w =
     (\<lparr>Reader_ptr = fresh w, closers = []\<rparr>,
      w\<lparr>heap := (heap w)(fresh w := NewReader_v1 stdin), fresh := Suc (fresh w)\<rparr>)"

text \<open>The loop of \<open>Close\<close> over \<open>rc.closers\<close>, with \<open>firstErr\<close>.\<close>

fun Close_loop ::
  "close_fn \<Rightarrow> nat list \<Rightarrow> ReaderError option \<Rightarrow> world \<Rightarrow> ReaderError option \<times> world" where
  "Close_loop cl [] firstErr w = (firstErr, w)"
| "Close_loop cl (c # cs) firstErr w =
     (case closer_Close cl c w of
        (e, w') \<Rightarrow>
          Close_loop cl cs
            (case e of
               None \<Rightarrow> firstErr
             | Some x \<Rightarrow> if firstErr = None then Some (newErrClose x) else firstErr)
            w')"

definition Close ::
  "close_fn \<Rightarrow> ReaderCloser \<Rightarrow> world \<Rightarrow> ReaderError option \<times> ReaderCloser \<times> world" where
  "Close cl rc w =
     (case Close_loop cl (closers rc) None w of
        (firstErr, w') \<Rightarrow> (firstErr, rc\<lparr>closers := []\<rparr>, w'))"

text \<open>
  A reader handed to \<open>SetReaders\<close> is its bytes and, when it is an \<open>io.Closer\<close> too, its
  resource. \<open>rc.Reader.SetReaders\<close> writes through the embedded pointer.
\<close>

type_synonym io_Reader = "source \<times> nat option"

definition ReaderCloser_SetReaders ::
  "close_fn \<Rightarrow> ReaderCloser \<Rightarrow> io_Reader list \<Rightarrow> world \<Rightarrow> ReaderCloser \<times> world" where
  "ReaderCloser_SetReaders cl rc readers w =
     (case Close cl rc w of
        (e, rc1, w1) \<Rightarrow>
          let rc2 = rc1\<lparr>closers := take 0 (closers rc1)\<rparr>;
              rs = map fst readers;
              rc3 = rc2\<lparr>closers := closers rc2 @ List.map_filter snd readers\<rparr>
          in (rc3,
              w1\<lparr>heap := (heap w1)(Reader_ptr rc3 :=
                     SetReaders_v1 (heap w1 (Reader_ptr rc3)) rs)\<rparr>))"

text \<open>
  The builders: \<^verbatim>\<open>newR := *rc\<close> copies the two fields of the struct, the pointer among them;
  the setter then runs on the copy, and its address is returned.
\<close>

definition ReaderCloser_FromString ::
  "close_fn \<Rightarrow> ReaderCloser \<Rightarrow> string \<Rightarrow> world \<Rightarrow> ReaderCloser \<times> world" where
  "ReaderCloser_FromString cl rc s w =
     (let newR = rc in ReaderCloser_SetReaders cl newR [(strings_NewReader s, None)] w)"

definition ReaderCloser_FromBytes ::
  "close_fn \<Rightarrow> ReaderCloser \<Rightarrow> string \<Rightarrow> world \<Rightarrow> ReaderCloser \<times> world" where
  "ReaderCloser_FromBytes cl rc b w =
     (let newR = rc in ReaderCloser_SetReaders cl newR [(bytes_NewReader b, None)] w)"

definition ReaderCloser_WithReaders ::
  "close_fn \<Rightarrow> ReaderCloser \<Rightarrow> io_Reader list \<Rightarrow> world \<Rightarrow> ReaderCloser \<times> world" where
  "ReaderCloser_WithReaders cl rc readers w =
     (let newR = rc in ReaderCloser_SetReaders cl newR readers w)"

definition ReaderCloser_WithDelimiter ::
  "ReaderCloser \<Rightarrow> Delimiter_v1 option \<Rightarrow> world \<Rightarrow> ReaderCloser \<times> world" where
  "ReaderCloser_WithDelimiter rc d w =
     (let newR = rc
      in (newR, w\<lparr>heap := (heap w)(Reader_ptr newR :=
                     SetDelimiter_v1 (heap w (Reader_ptr newR)) d)\<rparr>))"

definition ReaderCloser_WithNormalizer ::
  "ReaderCloser \<Rightarrow> (string \<Rightarrow> string) option \<Rightarrow> world \<Rightarrow> ReaderCloser \<times> world" where
  "ReaderCloser_WithNormalizer rc n w =
     (let newR = rc
      in (newR, w\<lparr>heap := (heap w)(Reader_ptr newR :=
                     SetNormalizer_v1 (heap w (Reader_ptr newR)) n)\<rparr>))"

definition ReaderCloser_WithFilter ::
  "ReaderCloser \<Rightarrow> (string \<Rightarrow> bool) option \<Rightarrow> world \<Rightarrow> ReaderCloser \<times> world" where
  "ReaderCloser_WithFilter rc f w =
     (let newR = rc
      in (newR, w\<lparr>heap := (heap w)(Reader_ptr newR :=
                     SetFilter_v1 (heap w (Reader_ptr newR)) f)\<rparr>))"

section \<open>Notions for the statements\<close>

subsection \<open>Invariants of the Delimiters\<close>

text \<open>The invariant of the data model, for each of the two Delimiter types.\<close>

definition pattern_ok :: "pattern \<Rightarrow> bool" where
  "pattern_ok p = (if re p = None then True else str p = [])"

definition Delimiter_ok :: "Delimiter \<Rightarrow> bool" where
  "Delimiter_ok d = (enabled (token d) \<and> pattern_ok (token d) \<and> pattern_ok (stop d))"

definition Delimiter_v1_ok :: "Delimiter_v1 \<Rightarrow> bool" where
  "Delimiter_v1_ok d = (if regexpr d = None then str_v1 d \<noteq> [] else str_v1 d = [])"

subsection \<open>The stream of tokens behind both loops\<close>

text \<open>
  \<open>scan_tokens\<close> lists what the scanner hands to the loops of \<open>ReadTokens\<close> and
  \<open>StreamTokens\<close> before they leave: the successive non-empty tokens, whether the scan ended
  at an empty token (rather than because \<open>Scan\<close> returned \<open>false\<close>), and the scanner at
  that point. \<open>batch\<close> and \<open>stream\<close> are the two loops on such a list.
\<close>

function scan_tokens :: "Reader \<Rightarrow> Scanner \<Rightarrow> string list \<times> bool \<times> Scanner" where
  "scan_tokens r s =
     (case Scan (createSplitFunc r) s of
        (False, s') \<Rightarrow> ([], False, s')
      | (True, s') \<Rightarrow>
          if Text s' = [] then ([], True, s')
          else (case scan_tokens r s' of (ts, b, sf) \<Rightarrow> (Text s' # ts, b, sf)))"
  by pat_completeness auto
termination
  by (relation "measure (\<lambda>(r, s). bytes_left s)") (auto dest: Scan_bytes[OF sym])

declare scan_tokens.simps [simp del]

definition end_err :: "Reader \<Rightarrow> Scanner \<Rightarrow> ReaderError option" where
  "end_err r s =
     (case Scanner_Err s of
        Some e \<Rightarrow> if FailOnError r then Some (newErrRead e) else None
      | None \<Rightarrow> None)"

fun batch ::
  "Reader \<Rightarrow> string list \<Rightarrow> string list \<Rightarrow> int \<Rightarrow> ReaderError option \<Rightarrow>
     string list \<times> ReaderError option" where
  "batch r [] tokens n e = (tokens, e)"
| "batch r (t # ts) tokens n e =
     (let tok = normalized r t in
      if rejected r tok then
        (if FailOnInvalid r then (tokens, Some (newErrInvalid tok n))
         else batch r ts tokens (n + int (length tok)) e)
      else batch r ts (tokens @ [tok]) (n + int (length tok)) e)"

fun stream ::
  "Reader \<Rightarrow> go_error \<Rightarrow> (nat \<Rightarrow> handoff) \<Rightarrow> string list \<Rightarrow> string list \<Rightarrow> int \<Rightarrow>
     stream_result \<Rightarrow> string list \<times> stream_result" where
  "stream r ctx_Err env [] out n e = (out, e)"
| "stream r ctx_Err env (t # ts) out n e =
     (let tok = normalized r t in
      if rejected r tok then
        (if FailOnInvalid r then (out, Returned (Some (ReaderErr (newErrInvalid tok n))))
         else stream r ctx_Err env ts out (n + int (length tok)) e)
      else
        (case select_out (env (length out)) of
           Sent \<Rightarrow> stream r ctx_Err env ts (out @ [tok]) (n + int (length tok)) e
         | Cancelled \<Rightarrow> (out, Returned (Some (CtxErr ctx_Err)))
         | Blocks \<Rightarrow> (out, Blocked)))"

subsection \<open>Sources that deliver their bytes without failure\<close>

text \<open>
  A source is clean when every read delivers bytes with no error until one reports
  \<open>io.EOF\<close> (with or without last bytes), or the reads are used up. Its content is the
  bytes read up to there. \<open>scan_inv\<close> is what the scanner keeps on such a source: it is
  not done, and it has met no error but \<open>io.EOF\<close>.
\<close>

fun clean :: "source \<Rightarrow> bool" where
  "clean [] = True"
| "clean ((c, e) # rs) = (if e = None then c \<noteq> [] \<and> clean rs else e = Some EOF)"

fun content :: "source \<Rightarrow> string" where
  "content [] = []"
| "content ((c, e) # rs) = (if e = None then c @ content rs else c)"

definition scan_inv :: "Scanner \<Rightarrow> bool" where
  "scan_inv s = (\<not> s_done s \<and> (if s_err s = None then clean (s_r s) else s_err s = Some EOF))"

text \<open>The bytes the scanner has not consumed yet: those buffered and those still to be read.\<close>

definition pending :: "Scanner \<Rightarrow> string" where
  "pending s = s_buf s @ (if s_err s = None then content (s_r s) else [])"

subsection \<open>The reference split\<close>

text \<open>
  \<open>locate\<close> is the search that the closure of \<open>createSplitFunc\<close> runs on a buffer: the
  location \<open>(start, end)\<close> of the leftmost match of the configured boundary, compiled or
  literal.
\<close>

definition locate :: "Reader \<Rightarrow> string \<Rightarrow> (nat \<times> nat) option" where
  "locate r data =
     (case delimiter r of
        Some rx \<Rightarrow> FindIndex rx data
      | None \<Rightarrow>
          map_option (\<lambda>i. (i, i + length (delimiterStr r))) (bytes_Index data (delimiterStr r)))"

text \<open>
  The reference split of the spec, on the input as a whole: the pieces before the successive
  leftmost matches of the boundary, each search starting behind the last match, and what
  remains behind the last match unless it is empty (no empty final token after a trailing
  delimiter). A match that ends where the search starts leaves nothing to go on with: the
  split ends with the piece before it.
\<close>

function ref_split :: "(string \<Rightarrow> (nat \<times> nat) option) \<Rightarrow> string \<Rightarrow> string list" where
  "ref_split loc s =
     (if s = [] then []
      else
        (case loc s of
           None \<Rightarrow> [s]
         | Some (a, b) \<Rightarrow>
             if b = 0 then [take a s] else take a s # ref_split loc (drop b s)))"
  by pat_completeness auto
termination
  by (relation "measure (\<lambda>(loc, s). length s)") auto

declare ref_split.simps [simp del]

text \<open>
  A boundary is stable when the leftmost match in a buffer stays the leftmost match however
  the buffer goes on, and is found as soon as the buffer holds it. A literal is stable; a
  compiled expression such as \<open>\s+\<close> is not (its match grows with the buffer).
\<close>

definition stable :: "(string \<Rightarrow> (nat \<times> nat) option) \<Rightarrow> bool" where
  "stable loc =
     (\<forall>d e a b.
        (loc d = Some (a, b) \<longrightarrow> loc (d @ e) = Some (a, b)) \<and>
        (loc (d @ e) = Some (a, b) \<and> b \<le> length d \<longrightarrow> loc d = Some (a, b)))"

text \<open>
  The input fits the scanner's buffer when every token up to the first empty one ends,
  together with the match that ends it, within \<open>MaxScanTokenSize\<close> bytes, and a last token
  with no match behind it is shorter than that.
\<close>

function within_buffer :: "(string \<Rightarrow> (nat \<times> nat) option) \<Rightarrow> string \<Rightarrow> bool" where
  "within_buffer loc s =
     (if s = [] then True
      else
        (case loc s of
           None \<Rightarrow> length s < MaxScanTokenSize
         | Some (a, b) \<Rightarrow>
             b \<le> MaxScanTokenSize \<and> (if a = 0 \<or> b = 0 then True else within_buffer loc (drop b s))))"
  by pat_completeness auto
termination
  by (relation "measure (\<lambda>(loc, s). length s)") auto

declare within_buffer.simps [simp del]

subsection \<open>Results of closing\<close>

text \<open>
  The results of the \<open>Close\<close> calls on the resources \<open>cs\<close> in this order, from the counts
  \<open>k\<close> of earlier closes; the counts afterwards; the first failure among results.
\<close>

fun close_results :: "close_fn \<Rightarrow> nat list \<Rightarrow> (nat \<Rightarrow> nat) \<Rightarrow> go_error option list" where
  "close_results cl [] k = []"
| "close_results cl (c # cs) k = cl c (k c) # close_results cl cs (k(c := Suc (k c)))"

fun closes_after :: "nat list \<Rightarrow> (nat \<Rightarrow> nat) \<Rightarrow> nat \<Rightarrow> nat" where
  "closes_after [] k = k"
| "closes_after (c # cs) k = closes_after cs (k(c := Suc (k c)))"

definition first_failure :: "go_error option list \<Rightarrow> ReaderError option" where
  "first_failure results =
     (case dropWhile (\<lambda>e. e = None) results of
        [] \<Rightarrow> None
      | e # rest \<Rightarrow> map_option newErrClose e)"

subsection \<open>Inputs of the examples\<close>

text \<open>
  A Reader with a literal boundary, neither normalizer nor filter, and fail-on-error set;
  the default Reader on \<open>"hello\nhi\nworld"\<close> with a filter on the length and
  fail-on-invalid set.
\<close>

definition example_reader :: "string \<Rightarrow> source \<Rightarrow> Reader" where
  "example_reader d src =
     \<lparr>reader = src, delimiter = None, delimiterStr = d,
      normalizef = None, filterf = None, FailOnError = True, FailOnInvalid = False\<rparr>"

definition fail_fast_reader :: Reader where
  "fail_fast_reader =
     (SetFilter (FromString (NewReader []) (''hello'' @ [LF] @ ''hi'' @ [LF] @ ''world''))
        (Some (FilterMinLength 3)))\<lparr>FailOnInvalid := True\<rparr>"

text \<open>
  The same Reader on \<open>" hello \n hi \nworld"\<close>, where the normalizer changes the tokens, and
  a source whose only read delivers \<open>"a,,b"\<close> together with a failure.
\<close>

definition fail_fast_padded :: Reader where
  "fail_fast_padded =
     (SetFilter (FromString (NewReader []) ('' hello '' @ [LF] @ '' hi '' @ [LF] @ ''world''))
        (Some (FilterMinLength 3)))\<lparr>FailOnInvalid := True\<rparr>"

definition failing_read :: source where
  "failing_read = [(''a,,b'', Some (Failure ''unexpected''))]"

text \<open>
  A source whose first read ends inside a token, and a Reader with a compiled boundary (the
  expression \<open>\n\<close>) on a source that reports \<open>io.EOF\<close> with its last bytes.
\<close>

definition two_reads :: source where
  "two_reads = [(''ab,c'', None), (''d,e'', None)]"

definition lines_by_regexp :: Reader where
  "lines_by_regexp =
     SetDelimiter
       (SetNormalizer (SetReaders (NewReader []) [[(''one'' @ [LF] @ ''t'', None), (''wo'', Some EOF)]])
          None)
       (Some re_newline)"

text \<open>
  A compiled boundary of one or more blanks (the expression \<open>" +"\<close>), and a Reader that
  splits on it.
\<close>

definition re_blanks :: regexp where
  "re_blanks data =
     (case bytes_Index data '' '' of
        None \<Rightarrow> None
      | Some i \<Rightarrow> Some (i, i + length (takeWhile (\<lambda>c. c = CHR '' '') (drop i data))))"

definition words_reader :: "source \<Rightarrow> Reader" where
  "words_reader src =
     \<lparr>reader = src, delimiter = Some re_blanks, delimiterStr = [],
      normalizef = None, filterf = None, FailOnError = True, FailOnInvalid = False\<rparr>"

text \<open>
  Environments of a streaming call: the consumer always ready and the context never done;
  the context done from the start with the consumer ready, the send taken each time; the
  context done from the start and the consumer never ready; the consumer ready for the
  first \<open>c\<close> handoffs and the context done from then on.
\<close>

definition always_sent :: "nat \<Rightarrow> handoff" where
  "always_sent k = \<lparr>can_send = True, ctx_done = False, pick_send = True\<rparr>"

definition done_but_sent :: "nat \<Rightarrow> handoff" where
  "done_but_sent k = \<lparr>can_send = True, ctx_done = True, pick_send = True\<rparr>"

definition done_not_ready :: "nat \<Rightarrow> handoff" where
  "done_not_ready k = \<lparr>can_send = False, ctx_done = True, pick_send = False\<rparr>"

definition cancel_at :: "nat \<Rightarrow> nat \<Rightarrow> handoff" where
  "cancel_at c k = \<lparr>can_send = (k < c), ctx_done = (c \<le> k), pick_send = False\<rparr>"

text \<open>A world with nothing closed yet, and no ReaderCloser allocated.\<close>

definition world0 :: world where
  "world0 = \<lparr>heap = (\<lambda>a. NewReader_v1 []), fresh = 0, closes = (\<lambda>c. 0), close_log = []\<rparr>"

text \<open>Three resources, of which the first and the third fail to close.\<close>

definition cl_example :: close_fn where
  "cl_example c k =
     (if c = 2 then None else Some (Failure (if c = 1 then ''one'' else ''three'')))"

section \<open>Properties of the Delimiters\<close>

subsection \<open>Precedence between stop and token\<close>

text \<open>
  What \<open>SplitFunc\<close> does on a non-empty buffer in which the stop pattern matches: the stop
  branch when the stop match starts strictly before the token match (or there is none), the
  token branch when both start at the same index. The default stop pattern \<open>"\n\n"\<close> never
  starts before a match of the default token pattern \<open>"\n"\<close>, so it never takes effect.
\<close>

lemma Index_LF_example: "bytes_Index [CHR ''a'', LF, LF, CHR ''b''] [LF] = Some 1"
  by simp

lemma Index_LFLF_example: "bytes_Index [CHR ''a'', LF, LF, CHR ''b''] [LF, LF] = Some 1"
  by simp

lemma stop_wins_when_strictly_first:
  assumes "enabled (stop d)" and "find_pat (token d) data = (tokenIdx, tokenW)"
    and "find_pat (stop d) data = (stopIdx, stopW)"
    and "0 \<le> stopIdx" and "tokenIdx < 0 \<or> stopIdx < tokenIdx" and "data \<noteq> []"
  shows "SplitFunc d data atEOF =
           (if 0 < stopIdx then (stopIdx, Some (take (nat stopIdx) data), None)
            else (stopW, None, Some ErrFinalToken))"
  using assms by (simp add: SplitFunc_def)

lemma token_wins_at_tie:
  assumes "find_pat (token d) data = (tokenIdx, tokenW)"
    and "find_pat (stop d) data = (tokenIdx, stopW)"
    and "0 \<le> tokenIdx" and "data \<noteq> []"
  shows "SplitFunc d data atEOF = (tokenIdx + tokenW, Some (take (nat tokenIdx) data), None)"
  using assms by (simp add: SplitFunc_def)

lemma bytes_Index_LF_before_LFLF:
  "bytes_Index data [LF, LF] = Some i \<Longrightarrow> \<exists>j. bytes_Index data [LF] = Some j \<and> j \<le> i"
proof (induction data arbitrary: i)
  case Nil
  then show ?case by simp
next
  case (Cons c data)
  show ?case
  proof (cases "prefix [LF] (c # data)")
    case True
    then show ?thesis by simp
  next
    case False
    then have "\<not> prefix [LF, LF] (c # data)" by auto
    with Cons.prems have "map_option Suc (bytes_Index data [LF, LF]) = Some i"
      by (simp only: bytes_Index.simps if_False)
    then obtain k where k: "bytes_Index data [LF, LF] = Some k" "i = Suc k"
      by auto
    from Cons.IH[OF k(1)] obtain j where "bytes_Index data [LF] = Some j" "j \<le> k" by blast
    with False k(2) show ?thesis by simp
  qed
qed

lemma default_stop_never_wins:
  "SplitFunc DefaultDelimiter data atEOF = SplitFunc (SetStopStr DefaultDelimiter []) data atEOF"
proof (cases "bytes_Index data [LF, LF]")
  case None
  then show ?thesis
    by (simp add: SplitFunc_def find_pat_def enabled_def DefaultDelimiter_def SetStopStr_def)
next
  case (Some i)
  from bytes_Index_LF_before_LFLF[OF Some] obtain j where
    "bytes_Index data [LF] = Some j" "j \<le> i" by blast
  with Some show ?thesis
    by (simp add: SplitFunc_def find_pat_def enabled_def DefaultDelimiter_def SetStopStr_def)
qed

text \<open>
  C2. Precedence at a tie. On the buffer \<open>"a\n\nb"\<close> the default Delimiter's stop pattern
  \<open>"\n\n"\<close> and its token pattern \<open>"\n"\<close> both match at index 1. The code tests
  \<open>stopIdx < tokenIdx\<close>, so the token branch is taken: the result advances past the token
  delimiter (\<open>tokenIdx + tokenW = 2\<close>) and the scan goes on, where the stop branch would
  return \<open>(1, "a", nil)\<close>. On \<open>"\n\nb"\<close> both match at index 0 and the code emits an empty
  token and goes on, where the stop branch would return \<open>(2, nil, ErrFinalToken)\<close>.
\<close>

theorem SplitFunc_tie_takes_token_branch:
  "find_pat (token DefaultDelimiter) [CHR ''a'', LF, LF, CHR ''b''] = (1, 1) \<and>
   find_pat (stop DefaultDelimiter) [CHR ''a'', LF, LF, CHR ''b''] = (1, 2) \<and>
   SplitFunc DefaultDelimiter [CHR ''a'', LF, LF, CHR ''b''] False = (2, Some ''a'', None) \<and>
   find_pat (token DefaultDelimiter) [LF, LF, CHR ''b''] = (0, 1) \<and>
   find_pat (stop DefaultDelimiter) [LF, LF, CHR ''b''] = (0, 2) \<and>
   SplitFunc DefaultDelimiter [LF, LF, CHR ''b''] False = (1, Some [], None)"
  by (simp add: SplitFunc_def find_pat_def enabled_def DefaultDelimiter_def)

subsection \<open>Invariants\<close>

text \<open>
  The setters of the single-pattern Delimiter keep its pattern enabled and of one form. The
  setters of the token/stop Delimiter keep each pattern of one form.
\<close>

lemma SetStr_ok: "Delimiter_v1_ok (SetStr d s)"
  by (simp add: Delimiter_v1_ok_def SetStr_def Let_def)

lemma SetRegexp_ok: "Delimiter_v1_ok (SetRegexp d r)"
  by (simp add: Delimiter_v1_ok_def SetRegexp_def)

lemma DefaultDelimiter_ok: "Delimiter_ok DefaultDelimiter \<and> Delimiter_v1_ok DefaultDelimiter_v1"
  by (simp add: Delimiter_ok_def DefaultDelimiter_def enabled_def pattern_ok_def
      Delimiter_v1_ok_def DefaultDelimiter_v1_def)

lemma setters_never_both:
  "pattern_ok (token d) \<Longrightarrow> pattern_ok (stop d) \<Longrightarrow>
     pattern_ok (token (SetTokenStr d s)) \<and> pattern_ok (stop (SetTokenStr d s)) \<and>
     pattern_ok (token (SetTokenRegexp d r)) \<and> pattern_ok (stop (SetTokenRegexp d r)) \<and>
     pattern_ok (token (SetStopStr d s)) \<and> pattern_ok (stop (SetStopStr d s)) \<and>
     pattern_ok (token (SetStopRegexp d r)) \<and> pattern_ok (stop (SetStopRegexp d r)) \<and>
     pattern_ok (token (WithTokenStr d s)) \<and> pattern_ok (stop (WithTokenStr d s)) \<and>
     pattern_ok (token (WithTokenRegexp d r)) \<and> pattern_ok (stop (WithTokenRegexp d r)) \<and>
     pattern_ok (token (WithStopStr d s)) \<and> pattern_ok (stop (WithStopStr d s)) \<and>
     pattern_ok (token (WithStopRegexp d r)) \<and> pattern_ok (stop (WithStopRegexp d r))"
  by (simp add: pattern_ok_def SetTokenStr_def SetTokenRegexp_def SetStopStr_def
      SetStopRegexp_def WithTokenStr_def WithTokenRegexp_def WithStopStr_def WithStopRegexp_def)

lemma setters_from_string_never_both:
  assumes "pattern_ok (token d)" and "pattern_ok (stop d)"
  shows "SetTokenRegexpFromString compile d e = Some d' \<Longrightarrow>
           pattern_ok (token d') \<and> pattern_ok (stop d') \<and> enabled (token d')"
    and "SetStopRegexpFromString compile d e = Some d' \<Longrightarrow>
           pattern_ok (token d') \<and> pattern_ok (stop d')"
    and "WithTokenRegexpFromString compile d e = Some d' \<Longrightarrow>
           pattern_ok (token d') \<and> pattern_ok (stop d') \<and> enabled (token d')"
    and "WithStopRegexpFromString compile d e = Some d' \<Longrightarrow>
           pattern_ok (token d') \<and> pattern_ok (stop d')"
  using assms
  by (auto simp: pattern_ok_def enabled_def SetTokenRegexpFromString_def
      SetStopRegexpFromString_def WithTokenRegexpFromString_def WithStopRegexpFromString_def
      split: option.splits if_splits)

text \<open>
  C8. The invariant "the token pattern is enabled" is lost by the setters of the token/stop
  Delimiter: \<open>SetTokenStr\<close> stores the empty string as it is (the sibling \<open>SetStr\<close> replaces
  it by \<open>"\n"\<close>, see \<open>SetStr_ok\<close>), and so do \<open>WithTokenStr\<close> with the empty string and
  \<open>SetTokenRegexp\<close> with \<open>nil\<close>. The Delimiter reached has a disabled token pattern, and its
  split function no longer splits: at end of input the buffer \<open>"a\nb"\<close> is one token.
\<close>

theorem SetTokenStr_empty_disables_token:
  "enabled (token (SetTokenStr DefaultDelimiter [])) = False \<and>
   enabled (token (WithTokenStr DefaultDelimiter [])) = False \<and>
   enabled (token (SetTokenRegexp DefaultDelimiter None)) = False \<and>
   Delimiter_ok (SetTokenStr DefaultDelimiter []) = False \<and>
   SplitFunc (SetTokenStr DefaultDelimiter []) [CHR ''a'', LF, CHR ''b''] True
     = (3, Some [CHR ''a'', LF, CHR ''b''], None)"
  by (simp add: SplitFunc_def find_pat_def enabled_def DefaultDelimiter_def SetTokenStr_def
      WithTokenStr_def SetTokenRegexp_def Delimiter_ok_def)

subsection \<open>Defaults\<close>

text \<open>
  C4, as the claim states it: the default has no stop boundary enabled. The default of the
  token/stop Delimiter has one: the blank line \<open>"\n\n"\<close>.
\<close>

theorem DefaultDelimiter_stop_enabled:
  "enabled (stop DefaultDelimiter) \<and> enabled (stop NewDelimiter) \<and>
   str (stop DefaultDelimiter) = [LF, LF]"
  by (simp add: enabled_def DefaultDelimiter_def NewDelimiter_def)

text \<open>
  C4, amended. Every default uses the single newline as its token boundary. The default
  Reader has no stop boundary at all: it has no compiled delimiter, and its split function
  cuts at the first newline and nowhere else. The single-pattern Delimiter has no stop
  pattern either. The default token/stop Delimiter has the stop pattern \<open>"\n\n"\<close> enabled.
\<close>

theorem defaults_newline_token:
  "token DefaultDelimiter = \<lparr>re = None, str = [LF]\<rparr> \<and>
   stop DefaultDelimiter = \<lparr>re = None, str = [LF, LF]\<rparr> \<and>
   enabled (token DefaultDelimiter) \<and> enabled (stop DefaultDelimiter) \<and>
   DefaultDelimiter_v1 = \<lparr>regexpr = None, str_v1 = [LF]\<rparr> \<and>
   delimiter (NewReader stdin) = None \<and> delimiterStr (NewReader stdin) = [LF] \<and>
   createSplitFunc (NewReader stdin) data atEOF =
     (if atEOF \<and> data = [] then (0, None, None)
      else case bytes_Index data [LF] of
             Some i \<Rightarrow> (int i + 1, Some (take i data), None)
           | None \<Rightarrow> if atEOF then (int (length data), Some data, None) else (0, None, None))"
  by (simp add: enabled_def DefaultDelimiter_def DefaultDelimiter_v1_def NewReader_def
      createSplitFunc_def split: option.splits)

section \<open>The two loops on the stream of tokens\<close>

text \<open>
  Each loop is its list version applied to the tokens that \<open>scan_tokens\<close> lists, ending
  with what the scanner's error gives.
\<close>

lemma ReadTokens_end_eq: "ReadTokens_end r s tokens = (tokens, end_err r s)"
  by (simp add: ReadTokens_end_def end_err_def split: option.splits)

lemma ReadTokens_loop_batch:
  "ReadTokens_loop r s tokens n =
     (case scan_tokens r s of (ts, b, sf) \<Rightarrow> batch r ts tokens n (end_err r sf))"
proof (induction r s tokens n rule: ReadTokens_loop.induct)
  case (1 r scanner tokens n)
  obtain ok s' where sc: "Scan (createSplitFunc r) scanner = (ok, s')"
    by (cases "Scan (createSplitFunc r) scanner") auto
  show ?case
  proof (cases "ok \<and> Text s' \<noteq> []")
    case False
    then show ?thesis
      using sc by (cases ok) (simp_all add: ReadTokens_end_eq ReadTokens_loop.simps scan_tokens.simps)
  next
    case True
    then have ok: "ok = True" and ne: "Text s' \<noteq> []" by simp_all
    obtain ts b sf where st: "scan_tokens r s' = (ts, b, sf)"
      by (cases "scan_tokens r s'") auto
    let ?tok = "normalized r (Text s')"
    show ?thesis
    proof (cases "rejected r ?tok")
      case rej: True
      show ?thesis
      proof (cases "FailOnInvalid r")
        case True
        then show ?thesis
          using sc ok ne rej st
          by (subst ReadTokens_loop.simps, subst scan_tokens.simps) (simp add: Let_def)
      next
        case False
        have "ReadTokens_loop r s' tokens (n + int (length ?tok)) =
                batch r ts tokens (n + int (length ?tok)) (end_err r sf)"
          using 1(1)[OF sc[symmetric, unfolded ok] refl ne refl rej False] st by simp
        then show ?thesis
          using sc ok ne rej st False
          by (subst ReadTokens_loop.simps, subst scan_tokens.simps) (simp add: Let_def)
      qed
    next
      case acc: False
      have "ReadTokens_loop r s' (tokens @ [?tok]) (n + int (length ?tok)) =
              batch r ts (tokens @ [?tok]) (n + int (length ?tok)) (end_err r sf)"
        using 1(2)[OF sc[symmetric, unfolded ok] refl ne refl acc] st by simp
      then show ?thesis
        using sc ok ne acc st
        by (subst ReadTokens_loop.simps, subst scan_tokens.simps) (simp add: Let_def)
    qed
  qed
qed

lemma StreamTokens_loop_stream:
  "StreamTokens_loop r c env s out n =
     (case scan_tokens r s of (ts, b, sf) \<Rightarrow> stream r c env ts out n (StreamTokens_end r sf))"
proof (induction r c env s out n rule: StreamTokens_loop.induct)
  case (1 r c env scanner out n)
  obtain ok s' where sc: "Scan (createSplitFunc r) scanner = (ok, s')"
    by (cases "Scan (createSplitFunc r) scanner") auto
  show ?case
  proof (cases "ok \<and> Text s' \<noteq> []")
    case False
    then show ?thesis
      using sc by (cases ok) (simp_all add: StreamTokens_loop.simps scan_tokens.simps)
  next
    case True
    then have ok: "ok = True" and ne: "Text s' \<noteq> []" by simp_all
    obtain ts b sf where st: "scan_tokens r s' = (ts, b, sf)"
      by (cases "scan_tokens r s'") auto
    let ?tok = "normalized r (Text s')"
    show ?thesis
    proof (cases "rejected r ?tok")
      case rej: True
      show ?thesis
      proof (cases "FailOnInvalid r")
        case True
        then show ?thesis
          using sc ok ne rej st
          by (subst StreamTokens_loop.simps, subst scan_tokens.simps) (simp add: Let_def)
      next
        case False
        have "StreamTokens_loop r c env s' out (n + int (length ?tok)) =
                stream r c env ts out (n + int (length ?tok)) (StreamTokens_end r sf)"
          using 1(1)[OF sc[symmetric, unfolded ok] refl ne refl rej False] st by simp
        then show ?thesis
          using sc ok ne rej st False
          by (subst StreamTokens_loop.simps, subst scan_tokens.simps) (simp add: Let_def)
      qed
    next
      case acc: False
      show ?thesis
      proof (cases "select_out (env (length out))")
        case Sent
        have "StreamTokens_loop r c env s' (out @ [?tok]) (n + int (length ?tok)) =
                stream r c env ts (out @ [?tok]) (n + int (length ?tok)) (StreamTokens_end r sf)"
          using 1(2)[OF sc[symmetric, unfolded ok] refl ne refl acc Sent] st by simp
        then show ?thesis
          using sc ok ne acc st Sent
          by (subst StreamTokens_loop.simps, subst scan_tokens.simps) (simp add: Let_def)
      next
        case Cancelled
        then show ?thesis
          using sc ok ne acc st
          by (subst StreamTokens_loop.simps, subst scan_tokens.simps) (simp add: Let_def)
      next
        case Blocks
        then show ?thesis
          using sc ok ne acc st
          by (subst StreamTokens_loop.simps, subst scan_tokens.simps) (simp add: Let_def)
      qed
    qed
  qed
qed

text \<open>The equations that evaluate a scan of a given input.\<close>

lemmas scan_eval =
  Scan_def try_split_def createSplitFunc_def NewScanner_def Text_def setErr_def
  Scanner_Err_def strings_NewReader_def MaxScanTokenSize_def Let_def
  Scan_loop.simps ReadTokens_loop.simps StreamTokens_loop.simps scan_tokens.simps

lemmas reader_eval =
  NewReader_def FromString_def SetReaders_def SetFilter_def FilterMinLength_def
  NormalizeTrimSpace_def isSpace_def normalized_def rejected_def

section \<open>Rejection and the running offset\<close>

lemma batch_reject:
  "FailOnInvalid r \<Longrightarrow> list_all (\<lambda>x. \<not> rejected r (normalized r x)) pre \<Longrightarrow>
   rejected r (normalized r t) \<Longrightarrow>
   batch r (pre @ t # post) tokens n e =
     (tokens @ map (normalized r) pre,
      Some (newErrInvalid (normalized r t) (n + (\<Sum>x\<leftarrow>pre. int (length (normalized r x))))))"
  by (induction pre arbitrary: tokens n) (simp_all add: Let_def add.assoc)

lemma ReadTokens_reject:
  assumes "FailOnInvalid r"
    and "fst (scan_tokens r (NewScanner (reader r))) = pre @ t # post"
    and "list_all (\<lambda>x. \<not> rejected r (normalized r x)) pre"
    and "rejected r (normalized r t)"
  shows "ReadTokens r =
           (map (normalized r) pre,
            Some (newErrInvalid (normalized r t) (\<Sum>x\<leftarrow>pre. int (length (normalized r x)))))"
proof -
  obtain ts b sf where st: "scan_tokens r (NewScanner (reader r)) = (ts, b, sf)"
    by (cases "scan_tokens r (NewScanner (reader r))") auto
  with assms(2) have ts: "ts = pre @ t # post" by simp
  show ?thesis
    unfolding ReadTokens_def ReadTokens_loop_batch st ts
    using batch_reject[OF assms(1,3,4)] by simp
qed

text \<open>
  C5. Let fail-on-invalid be set, let \<open>keep\<close> be the filter and \<open>nz\<close> the normalizer (the
  identity when there is none). Let the scanner hand over the tokens \<open>pre\<close>, all kept by the
  filter once normalized, and then a token \<open>t\<close> whose normalized form the filter rejects.
  Then \<open>ReadTokens\<close> returns the normalized tokens of \<open>pre\<close> and an error of kind
  \<open>ErrInvalid\<close>, with no wrapped cause, whose \<open>Token\<close> is the normalized \<open>t\<close> and whose
  \<open>Index\<close> is the running offset, the bytes of the normalized tokens before it. Whatever
  the scanner would hand over next (\<open>post\<close>) has no part in the result.
\<close>

theorem ReadTokens_fail_fast:
  assumes "FailOnInvalid r"
    and "filterf r = Some keep"
    and "nz = (case normalizef r of None \<Rightarrow> (\<lambda>x. x) | Some nf \<Rightarrow> nf)"
    and "fst (scan_tokens r (NewScanner (reader r))) = pre @ t # post"
    and "list_all (\<lambda>x. keep (nz x)) pre"
    and "\<not> keep (nz t)"
  shows "ReadTokens r =
           (map nz pre,
            Some \<lparr>Kind = ErrInvalid, Err = None, Token = nz t,
                  Index = (\<Sum>x\<leftarrow>pre. int (length (nz x)))\<rparr>)"
proof -
  have nz: "normalized r = nz"
    by (rule ext) (simp add: normalized_def assms(3) split: option.splits)
  have rj: "rejected r x = (\<not> keep x)" for x
    by (simp add: rejected_def assms(2))
  have 3: "list_all (\<lambda>x. \<not> rejected r (normalized r x)) pre"
    using assms(5) by (simp add: nz rj)
  have 4: "rejected r (normalized r t)"
    using assms(6) by (simp add: nz rj)
  from ReadTokens_reject[OF assms(1) assms(4) 3 4] show ?thesis
    by (simp add: nz newErrInvalid_def)
qed

text \<open>
  The example of the spec: \<open>"hello\nhi\nworld"\<close> read by the default Reader with a filter
  that rejects tokens shorter than 3 bytes and fail-on-invalid set; the error carries
  \<open>"hi"\<close> and the offset 5. On \<open>" hello \n hi \nworld"\<close> the result is the same: the
  token and the offset are those after normalization.
\<close>

theorem ReadTokens_fail_fast_witness:
  "ReadTokens fail_fast_reader =
     ([''hello''], Some \<lparr>Kind = ErrInvalid, Err = None, Token = ''hi'', Index = 5\<rparr>) \<and>
   ReadTokens fail_fast_padded =
     ([''hello''], Some \<lparr>Kind = ErrInvalid, Err = None, Token = ''hi'', Index = 5\<rparr>)"
proof -
  have h1: "FailOnInvalid fail_fast_reader" "FailOnInvalid fail_fast_padded"
    by (simp_all add: fail_fast_reader_def fail_fast_padded_def)
  have h2: "filterf fail_fast_reader = Some (FilterMinLength 3)"
    "filterf fail_fast_padded = Some (FilterMinLength 3)"
    by (simp_all add: fail_fast_reader_def fail_fast_padded_def SetFilter_def)
  have h3: "NormalizeTrimSpace =
      (case normalizef fail_fast_reader of None \<Rightarrow> (\<lambda>x. x) | Some nf \<Rightarrow> nf)"
    "NormalizeTrimSpace =
      (case normalizef fail_fast_padded of None \<Rightarrow> (\<lambda>x. x) | Some nf \<Rightarrow> nf)"
    by (simp_all add: fail_fast_reader_def fail_fast_padded_def SetFilter_def FromString_def
        SetReaders_def NewReader_def)
  have h4: "fst (scan_tokens fail_fast_reader (NewScanner (reader fail_fast_reader)))
              = [''hello''] @ ''hi'' # [''world'']"
    by (simp add: fail_fast_reader_def reader_eval scan_eval)
  have h4': "fst (scan_tokens fail_fast_padded (NewScanner (reader fail_fast_padded)))
              = ['' hello ''] @ '' hi '' # [''world'']"
    by (simp add: fail_fast_padded_def reader_eval scan_eval)
  have h5: "list_all (\<lambda>x. FilterMinLength 3 (NormalizeTrimSpace x)) [''hello'']"
    "list_all (\<lambda>x. FilterMinLength 3 (NormalizeTrimSpace x)) ['' hello '']"
    by (simp_all add: FilterMinLength_def NormalizeTrimSpace_def isSpace_def)
  have h6: "\<not> FilterMinLength 3 (NormalizeTrimSpace ''hi'')"
    "\<not> FilterMinLength 3 (NormalizeTrimSpace '' hi '')"
    by (simp_all add: FilterMinLength_def NormalizeTrimSpace_def isSpace_def)
  from ReadTokens_fail_fast[OF h1(1) h2(1) h3(1) h4 h5(1) h6(1)]
    ReadTokens_fail_fast[OF h1(2) h2(2) h3(2) h4' h5(2) h6(2)]
  show ?thesis
    by (simp add: NormalizeTrimSpace_def isSpace_def)
qed







section \<open>Scanning a source without failure\<close>

text \<open>
  On a clean source the scanner keeps \<open>scan_inv\<close>: when the scan ends at an empty token,
  no error is pending.
\<close>

lemma fill_clean:
  "clean rs \<Longrightarrow> fill k rs = (c, e, rs') \<Longrightarrow>
     (if e = None then c \<noteq> [] \<and> clean rs' \<and> content rs = c @ content rs'
      else e = Some EOF \<and> content rs = c)"
  by (cases rs) (auto split: if_splits)

lemma createSplitFunc_no_err:
  "createSplitFunc r data atEOF = (a, t, e) \<Longrightarrow> e = None"
  by (auto simp: createSplitFunc_def ScanLines_def split: if_splits option.splits)

lemma try_split_inv:
  "scan_inv s \<Longrightarrow> try_split (createSplitFunc r) s = Return True s' \<Longrightarrow> scan_inv s'"
  by (auto simp: try_split_def scan_inv_def Let_def
      split: if_splits prod.splits option.splits dest: createSplitFunc_no_err)

lemma try_split_More_inv:
  "scan_inv s \<Longrightarrow> try_split split s = More s' \<Longrightarrow> scan_inv s'"
  by (auto simp: try_split_def scan_inv_def Let_def
      split: if_splits prod.splits option.splits)

lemma Scan_loop_inv:
  "scan_inv s \<Longrightarrow> Scan_loop (createSplitFunc r) s = (True, s') \<Longrightarrow> scan_inv s'"
proof (induction "createSplitFunc r" s rule: Scan_loop.induct)
  case (1 s)
  note IH = 1(1) and inv = 1(2) and run = 1(3)
  show ?case
  proof (cases "try_split (createSplitFunc r) s")
    case (Return b s1)
    with run have "b = True" "s1 = s'" by (simp_all add: Scan_loop.simps)
    with Return inv show ?thesis using try_split_inv by blast
  next
    case (More s1)
    from run More have c1: "s_err s1 = None" and c2: "\<not> MaxScanTokenSize \<le> length (s_buf s1)"
      by (auto simp: Scan_loop.simps split: if_splits)
    obtain c e rs where f: "fill 0 (s_r s1) = (c, e, rs)"
      by (cases "fill 0 (s_r s1)") auto
    define s2 where "s2 = (let s'' = s1\<lparr>s_r := rs, s_buf := s_buf s1 @ c\<rparr>
                    in case e of None \<Rightarrow> s'' | Some x \<Rightarrow> setErr x s'')"
    from run More c1 c2 f have r: "Scan_loop (createSplitFunc r) s2 = (True, s')"
      by (simp add: s2_def Scan_loop.simps)
    have i1: "scan_inv s1" using try_split_More_inv[OF inv More] .
    then have "clean (s_r s1)" using c1 by (simp add: scan_inv_def)
    from fill_clean[OF this f] i1 c1 have "scan_inv s2"
      by (cases e) (auto simp: s2_def scan_inv_def setErr_def Let_def split: if_splits)
    from IH[OF More _ c2 f[symmetric] refl] c1 this r show ?thesis
      by (simp add: s2_def)
  qed
qed

lemma scan_tokens_inv:
  "scan_inv s \<Longrightarrow> scan_tokens r s = (ts, True, sf) \<Longrightarrow> scan_inv sf"
proof (induction r s arbitrary: ts rule: scan_tokens.induct)
  case (1 r s)
  obtain ok s' where sc: "Scan (createSplitFunc r) s = (ok, s')"
    by (cases "Scan (createSplitFunc r) s") auto
  from 1(3) sc have ok: "ok = True"
    by (cases ok) (simp_all add: scan_tokens.simps)
  from 1(2) sc ok have i': "scan_inv s'"
    using Scan_loop_inv[of s r s'] by (simp add: Scan_def scan_inv_def split: if_splits)
  show ?case
  proof (cases "Text s' = []")
    case True
    with 1(3) sc ok have "sf = s'" by (simp add: scan_tokens.simps)
    with i' show ?thesis by simp
  next
    case False
    obtain ts' b' sf' where st: "scan_tokens r s' = (ts', b', sf')"
      by (cases "scan_tokens r s'") auto
    with 1(3) sc ok False have "b' = True" "sf' = sf"
      by (simp_all add: scan_tokens.simps)
    with 1(1)[OF sc[symmetric, unfolded ok] refl False i'] st show ?thesis by simp
  qed
qed

section \<open>Empty tokens\<close>

lemma batch_all:
  "list_all (\<lambda>t. \<not> (FailOnInvalid r \<and> rejected r (normalized r t))) ts \<Longrightarrow>
   batch r ts tokens n e = (tokens @ filter (\<lambda>x. \<not> rejected r x) (map (normalized r) ts), e)"
  by (induction ts arbitrary: tokens n) (auto simp: Let_def)

lemma stream_all:
  "list_all (\<lambda>t. \<not> (FailOnInvalid r \<and> rejected r (normalized r t))) ts \<Longrightarrow>
   \<forall>k. length out \<le> k \<and>
       k < length out + length (filter (\<lambda>x. \<not> rejected r x) (map (normalized r) ts)) \<longrightarrow>
       select_out (env k) = Sent \<Longrightarrow>
   stream r c env ts out n e = (out @ filter (\<lambda>x. \<not> rejected r x) (map (normalized r) ts), e)"
proof (induction ts arbitrary: out n)
  case Nil
  then show ?case by simp
next
  case (Cons t ts)
  show ?case
  proof (cases "rejected r (normalized r t)")
    case True
    from Cons.prems(1) True have nf: "\<not> FailOnInvalid r" and rest:
      "list_all (\<lambda>t. \<not> (FailOnInvalid r \<and> rejected r (normalized r t))) ts"
      by (simp_all add: list_all_iff)
    have "stream r c env ts out (n + int (length (normalized r t))) e =
      (out @ filter (\<lambda>x. \<not> rejected r x) (map (normalized r) ts), e)"
      using Cons.prems(2) True by (intro Cons.IH[OF rest]) simp
    with True nf show ?thesis by (simp add: Let_def)
  next
    case False
    with Cons.prems(2) have sent: "select_out (env (length out)) = Sent" by simp
    have "stream r c env ts (out @ [normalized r t]) (n + int (length (normalized r t))) e =
      ((out @ [normalized r t]) @ filter (\<lambda>x. \<not> rejected r x) (map (normalized r) ts), e)"
      using Cons.prems False by (intro Cons.IH) auto
    with False sent show ?thesis by (simp add: Let_def)
  qed
qed

text \<open>
  C3, as the claim states it: whenever the splitter produces an empty token, both calls
  return the tokens so far with no error. Let the only read of the source deliver
  \<open>"a,,b"\<close> together with a failure. The scanner keeps the failure and goes on splitting
  what it has buffered: it hands over \<open>"a"\<close>, then the empty token, at which both loops
  leave. After the loop \<open>scanner.Err()\<close> is the failure, so with fail-on-error set both calls
  return it as a Read error.
\<close>

theorem empty_token_after_failed_read:
  "ReadTokens (example_reader '','' failing_read) =
     ([''a''], Some \<lparr>Kind = ErrRead, Err = Some (Failure ''unexpected''), Token = [], Index = - 1\<rparr>) \<and>
   StreamTokens (example_reader '','' failing_read) Canceled always_sent =
     ([''a''],
      Returned (Some (ReaderErr
        \<lparr>Kind = ErrRead, Err = Some (Failure ''unexpected''), Token = [], Index = - 1\<rparr>)))"
  by (simp add: example_reader_def failing_read_def scan_eval ReadTokens_def ReadTokens_end_def
      StreamTokens_def StreamTokens_end_def select_out_def always_sent_def
      normalized_def rejected_def newErrRead_def)

text \<open>
  C3, amended. On a source that delivers its bytes without failure, let the scan end at an
  empty token (the flag \<open>True\<close> of \<open>scan_tokens\<close>) after the tokens \<open>ts\<close>, none of which makes
  the filter fail the call, and let every handoff of the streaming call go through. Then
  \<open>ReadTokens\<close> returns the tokens accepted among \<open>ts\<close> with no error, and \<open>StreamTokens\<close>
  has sent the same tokens and returns \<open>nil\<close>. The scanner \<open>sf\<close> left behind, with the
  bytes after the empty token, has no part in the result: every later token is dropped.
\<close>

theorem empty_token_ends_scan:
  assumes "clean (reader r)"
    and "scan_tokens r (NewScanner (reader r)) = (ts, True, sf)"
    and "list_all (\<lambda>t. \<not> (FailOnInvalid r \<and> rejected r (normalized r t))) ts"
    and "\<forall>k < length (filter (\<lambda>x. \<not> rejected r x) (map (normalized r) ts)).
           select_out (env k) = Sent"
  shows "ReadTokens r = (filter (\<lambda>x. \<not> rejected r x) (map (normalized r) ts), None) \<and>
         StreamTokens r ctx_Err env =
           (filter (\<lambda>x. \<not> rejected r x) (map (normalized r) ts), Returned None)"
proof -
  have "scan_inv (NewScanner (reader r))"
    using assms(1) by (simp add: scan_inv_def NewScanner_def)
  from scan_tokens_inv[OF this assms(2)] have "Scanner_Err sf = None"
    by (auto simp: scan_inv_def Scanner_Err_def split: if_splits)
  then have e: "end_err r sf = None" "StreamTokens_end r sf = Returned None"
    by (simp_all add: end_err_def StreamTokens_end_def)
  have 1: "ReadTokens r = (filter (\<lambda>x. \<not> rejected r x) (map (normalized r) ts), None)"
    using batch_all[OF assms(3), of "[]" 0 None]
    by (simp add: ReadTokens_def ReadTokens_loop_batch assms(2) e)
  have 2: "StreamTokens r ctx_Err env =
           (filter (\<lambda>x. \<not> rejected r x) (map (normalized r) ts), Returned None)"
    using stream_all[OF assms(3), of "[]" env ctx_Err 0 "Returned None"] assms(4)
    by (simp add: StreamTokens_def StreamTokens_loop_stream assms(2) e)
  from 1 2 show ?thesis by simp
qed

text \<open>
  Two adjacent delimiters: of \<open>"a,,b"\<close> only \<open>"a"\<close> is returned. A leading delimiter: of
  \<open>",a,b"\<close> nothing is.
\<close>

theorem empty_token_ends_scan_witness:
  "ReadTokens (example_reader '','' (strings_NewReader ''a,,b'')) = ([''a''], None) \<and>
   StreamTokens (example_reader '','' (strings_NewReader ''a,,b'')) Canceled always_sent
     = ([''a''], Returned None) \<and>
   ReadTokens (example_reader '','' (strings_NewReader '',a,b'')) = ([], None)"
proof -
  let ?r = "example_reader '','' (strings_NewReader ''a,,b'')"
  let ?q = "example_reader '','' (strings_NewReader '',a,b'')"
  have h1: "clean (reader ?r)" "clean (reader ?q)"
    by (simp_all add: example_reader_def strings_NewReader_def)
  have h2: "scan_tokens ?r (NewScanner (reader ?r)) =
     ([''a''], True, \<lparr>s_r = [], s_buf = ''b'', s_token = Some [], s_err = None, s_done = False\<rparr>)"
    by (simp add: example_reader_def scan_eval)
  have h2': "scan_tokens ?q (NewScanner (reader ?q)) =
     ([], True, \<lparr>s_r = [], s_buf = ''a,b'', s_token = Some [], s_err = None, s_done = False\<rparr>)"
    by (simp add: example_reader_def scan_eval)
  have h3: "list_all (\<lambda>t. \<not> (FailOnInvalid ?r \<and> rejected ?r (normalized ?r t))) [''a'']"
    "list_all (\<lambda>t. \<not> (FailOnInvalid ?q \<and> rejected ?q (normalized ?q t))) []"
    by (simp_all add: example_reader_def)
  have h4: "\<forall>k < length (filter (\<lambda>x. \<not> rejected ?r x) (map (normalized ?r) [''a''])).
           select_out (always_sent k) = Sent"
    "\<forall>k < length (filter (\<lambda>x. \<not> rejected ?q x) (map (normalized ?q) [])).
           select_out (always_sent k) = Sent"
    by (simp_all add: select_out_def always_sent_def)
  from empty_token_ends_scan[OF h1(1) h2 h3(1) h4(1), of Canceled]
    empty_token_ends_scan[OF h1(2) h2' h3(2) h4(2), of Canceled]
  show ?thesis
    by (simp add: example_reader_def rejected_def normalized_def)
qed

section \<open>Cancellation\<close>

lemma batch_prefix: "\<exists>rest. fst (batch r ts tokens n e) = tokens @ rest"
proof (induction ts arbitrary: tokens n)
  case Nil
  then show ?case by simp
next
  case (Cons t ts)
  show ?case
  proof (cases "rejected r (normalized r t)")
    case True
    then show ?thesis using Cons[of tokens] by (auto simp: Let_def)
  next
    case False
    from Cons[of "tokens @ [normalized r t]" "n + int (length (normalized r t))"]
    obtain rest where
      "fst (batch r ts (tokens @ [normalized r t]) (n + int (length (normalized r t))) e)
         = (tokens @ [normalized r t]) @ rest"
      by blast
    with False show ?thesis by (simp add: Let_def)
  qed
qed

lemma stream_cancel:
  "batch r ts out n e1 = (toks, e) \<Longrightarrow> length out \<le> k \<Longrightarrow> k < length toks \<Longrightarrow>
   \<forall>j. length out \<le> j \<and> j < k \<longrightarrow> select_out (env j) = Sent \<Longrightarrow>
   select_out (env k) = Cancelled \<Longrightarrow>
   stream r c env ts out n e2 = (take k toks, Returned (Some (CtxErr c)))"
proof (induction ts arbitrary: out n)
  case Nil
  then show ?case by simp
next
  case (Cons t ts)
  let ?tok = "normalized r t"
  show ?case
  proof (cases "rejected r ?tok")
    case rej: True
    show ?thesis
    proof (cases "FailOnInvalid r")
      case True
      with rej Cons.prems show ?thesis by (simp add: Let_def)
    next
      case False
      with rej Cons.prems(1) have "batch r ts out (n + int (length ?tok)) e1 = (toks, e)"
        by (simp add: Let_def)
      from Cons.IH[OF this Cons.prems(2,3,4,5)] rej False show ?thesis
        by (simp add: Let_def)
    qed
  next
    case acc: False
    with Cons.prems(1) have b: "batch r ts (out @ [?tok]) (n + int (length ?tok)) e1 = (toks, e)"
      by (simp add: Let_def)
    from batch_prefix[of r ts "out @ [?tok]" "n + int (length ?tok)" e1] b
    obtain rest where toks: "toks = (out @ [?tok]) @ rest" by auto
    show ?thesis
    proof (cases "length out = k")
      case True
      with Cons.prems(5) acc toks show ?thesis by (simp add: Let_def)
    next
      case False
      with Cons.prems(2) have lt: "length out < k" by simp
      with Cons.prems(4) have sent: "select_out (env (length out)) = Sent" by simp
      have "stream r c env ts (out @ [?tok]) (n + int (length ?tok)) e2 =
              (take k toks, Returned (Some (CtxErr c)))"
        using lt Cons.prems(3,4,5) by (intro Cons.IH[OF b]) auto
      with acc sent show ?thesis by (simp add: Let_def)
    qed
  qed
qed

text \<open>
  C6. The claim, and the doc comment of \<open>StreamTokens\<close> (if \<open>ctx\<close> is canceled, it returns
  immediately with \<open>ctx.Err()\<close>): once the cancellation signal has fired, the call returns
  the cancellation's own error and no further token is produced. The code looks at the
  context in the \<open>select\<close> of a handoff only, next to the send. With the context done
  before the call: when the consumer is ready at every handoff the \<open>select\<close> may take the
  send each time, so both tokens of \<open>"a\nb"\<close> are delivered and the call returns \<open>nil\<close>;
  and when the filter skips every token of \<open>"hi\nyo"\<close> there is no handoff at all, the
  whole input is scanned and the call returns \<open>nil\<close>.
\<close>

theorem cancellation_fired_no_error:
  "StreamTokens (example_reader [LF] (strings_NewReader (''a'' @ [LF] @ ''b''))) Canceled done_but_sent
     = ([''a'', ''b''], Returned None) \<and>
   StreamTokens
     ((example_reader [LF] (strings_NewReader (''hi'' @ [LF] @ ''yo'')))
        \<lparr>filterf := Some (FilterMinLength 3)\<rparr>) Canceled done_not_ready
     = ([], Returned None)"
  by (simp add: example_reader_def scan_eval StreamTokens_def StreamTokens_end_def
      select_out_def done_but_sent_def done_not_ready_def FilterMinLength_def
      normalized_def rejected_def)

text \<open>
  What the loop does ensure. Let \<open>toks\<close> be the tokens the batch read accepts on the same
  input, let the first \<open>k\<close> handoffs send their token, and let the \<open>select\<close> of handoff \<open>k\<close>
  take the cancellation branch. Then the call returns the context's own error; the consumer
  has the first \<open>k\<close> tokens; the token in flight and every later token are not delivered.
\<close>

lemma StreamTokens_cancelled_at_handoff:
  assumes "ReadTokens r = (toks, e)"
    and "k < length toks"
    and "\<forall>j < k. select_out (env j) = Sent"
    and "select_out (env k) = Cancelled"
  shows "StreamTokens r ctx_Err env = (take k toks, Returned (Some (CtxErr ctx_Err)))"
proof -
  obtain ts b sf where st: "scan_tokens r (NewScanner (reader r)) = (ts, b, sf)"
    by (cases "scan_tokens r (NewScanner (reader r))") auto
  from assms(1) have b: "batch r ts [] 0 (end_err r sf) = (toks, e)"
    by (simp add: ReadTokens_def ReadTokens_loop_batch st)
  have "stream r ctx_Err env ts [] 0 (StreamTokens_end r sf) =
          (take k toks, Returned (Some (CtxErr ctx_Err)))"
    using assms(2,3,4) by (intro stream_cancel[OF b]) auto
  then show ?thesis
    by (simp add: StreamTokens_def StreamTokens_loop_stream st)
qed

lemma StreamTokens_cancelled_at_handoff_example:
  "StreamTokens
     (example_reader [LF] (strings_NewReader (''a'' @ [LF] @ ''b'' @ [LF] @ ''c'' @ [LF] @ ''d'')))
     Canceled (cancel_at 2)
   = ([''a'', ''b''], Returned (Some (CtxErr Canceled)))"
proof -
  let ?r = "example_reader [LF] (strings_NewReader (''a'' @ [LF] @ ''b'' @ [LF] @ ''c'' @ [LF] @ ''d''))"
  have h1: "ReadTokens ?r = ([''a'', ''b'', ''c'', ''d''], None)"
    by (simp add: example_reader_def scan_eval ReadTokens_def ReadTokens_end_def
        normalized_def rejected_def)
  have h2: "2 < length [''a'', ''b'', ''c'', ''d'']" by simp
  have h3: "\<forall>j < 2. select_out (cancel_at 2 j) = Sent"
    by (simp add: select_out_def cancel_at_def)
  have h4: "select_out (cancel_at 2 2) = Cancelled"
    by (simp add: select_out_def cancel_at_def)
  from StreamTokens_cancelled_at_handoff[OF h1 h2 h3 h4, of Canceled]
  show ?thesis by simp
qed

section \<open>The tokens of ReadTokens and the reference split\<close>

text \<open>
  A literal boundary is stable. On a clean source that fits the buffer, with a stable
  boundary, every call of \<open>Scan\<close> cuts the pending bytes where the reference split cuts
  them, however the bytes are spread over the reads.
\<close>

lemma locate_bounds: "locate r data = Some (a, b) \<Longrightarrow> a \<le> b \<and> b \<le> length data"
  by (auto simp: locate_def split: option.splits dest: FindIndex_bounds bytes_Index_bounds)

lemma createSplitFunc_locate:
  "delimiter r \<noteq> None \<or> delimiterStr r \<noteq> [] \<Longrightarrow>
   createSplitFunc r data atEOF =
     (if atEOF \<and> data = [] then (0, None, None)
      else case locate r data of
             Some (a, b) \<Rightarrow> (int b, Some (take a data), None)
           | None \<Rightarrow> if atEOF then (int (length data), Some data, None) else (0, None, None))"
  by (auto simp: createSplitFunc_def locate_def split: option.splits)

lemma prefix_shorter: "prefix D (x @ e) \<Longrightarrow> length D \<le> length x \<Longrightarrow> prefix D x"
  by (metis prefix_length_prefix prefix_append prefixI)

lemma bytes_Index_append:
  "bytes_Index d D = Some i \<Longrightarrow> bytes_Index (d @ e) D = Some i"
proof (induction d arbitrary: i)
  case Nil
  then show ?case by (cases e) (auto split: if_splits)
next
  case (Cons c d)
  show ?case
  proof (cases "prefix D (c # d)")
    case True
    with Cons.prems have "i = 0" by simp
    moreover from True have "prefix D (c # d @ e)"
      by (metis append_Cons prefix_prefix)
    ultimately show ?thesis by simp
  next
    case False
    with Cons.prems obtain j where j: "bytes_Index d D = Some j" "i = Suc j"
      by auto
    from bytes_Index_bounds[OF j(1)] have "length D \<le> length (c # d)" by simp
    with False have "\<not> prefix D ((c # d) @ e)"
      using prefix_shorter by blast
    with Cons.IH[OF j(1)] j(2) show ?thesis by simp
  qed
qed

lemma bytes_Index_local:
  "bytes_Index (d @ e) D = Some i \<Longrightarrow> i + length D \<le> length d \<Longrightarrow> bytes_Index d D = Some i"
proof (induction d arbitrary: i)
  case Nil
  then show ?case by (cases e) (auto split: if_splits)
next
  case (Cons c d)
  show ?case
  proof (cases "prefix D ((c # d) @ e)")
    case True
    with Cons.prems(1) have i: "i = 0" by simp
    from Cons.prems(2) i have "length D \<le> length (c # d)" by simp
    with True have "prefix D (c # d)"
      by (rule prefix_shorter)
    with i show ?thesis by simp
  next
    case False
    with Cons.prems(1) obtain j where j: "bytes_Index (d @ e) D = Some j" "i = Suc j"
      by auto
    from False have "\<not> prefix D (c # d)"
      by (metis prefix_prefix)
    with Cons.IH[OF j(1)] j(2) Cons.prems(2) show ?thesis by simp
  qed
qed

lemma literal_stable:
  "delimiter r = None \<Longrightarrow> stable (locate r)"
  unfolding stable_def locate_def
  by (auto dest: bytes_Index_append bytes_Index_local)

lemma try_split_clean_More:
  assumes "delimiter r \<noteq> None \<or> delimiterStr r \<noteq> []"
    and "try_split (createSplitFunc r) s = More s1"
  shows "s_buf s1 = s_buf s \<and> s_r s1 = s_r s \<and> s_err s1 = s_err s \<and> s_done s1 = s_done s \<and>
         (s_buf s = [] \<or> (locate r (s_buf s) = None \<and> s_err s = None))"
  using assms(2) locate_bounds[of r "s_buf s"]
  unfolding try_split_def createSplitFunc_locate[OF assms(1)]
  by (auto simp: Let_def split: if_splits option.splits prod.splits)

lemma try_split_clean_Return:
  assumes "delimiter r \<noteq> None \<or> delimiterStr r \<noteq> []"
    and "try_split (createSplitFunc r) s = Return ok s1"
  shows "s_buf s \<noteq> [] \<and> ok \<and> s_r s1 = s_r s \<and> s_err s1 = s_err s \<and> s_done s1 = s_done s \<and>
         (case locate r (s_buf s) of
            Some (a, b) \<Rightarrow> s_buf s1 = drop b (s_buf s) \<and> Text s1 = take a (s_buf s)
          | None \<Rightarrow> s_err s \<noteq> None \<and> s_buf s1 = [] \<and> Text s1 = s_buf s)"
  using assms(2) locate_bounds[of r "s_buf s"]
  unfolding try_split_def createSplitFunc_locate[OF assms(1)]
  by (auto simp: Let_def Text_def split: if_splits option.splits prod.splits)

lemma stable_append: "stable loc \<Longrightarrow> loc d = Some (a, b) \<Longrightarrow> loc (d @ e) = Some (a, b)"
  unfolding stable_def by blast

lemma stable_local:
  "stable loc \<Longrightarrow> loc (d @ e) = Some (a, b) \<Longrightarrow> b \<le> length d \<Longrightarrow> loc d = Some (a, b)"
  unfolding stable_def by blast

lemma within_buffer_room:
  assumes st: "stable loc" and fits: "within_buffer loc (d @ e)" and none: "loc d = None"
    and ne: "d \<noteq> []"
  shows "length d < MaxScanTokenSize"
proof (cases "loc (d @ e)")
  case None
  with fits ne have "length (d @ e) < MaxScanTokenSize"
    by (subst (asm) within_buffer.simps) simp
  then show ?thesis by simp
next
  case (Some ab)
  obtain a b where ab: "ab = (a, b)" by (cases ab) auto
  with Some fits ne have b: "b \<le> MaxScanTokenSize"
    by (subst (asm) within_buffer.simps) simp
  have "\<not> b \<le> length d"
    using stable_local[OF st Some[unfolded ab]] none by auto
  with b show ?thesis by simp
qed

lemma Scan_loop_clean:
  assumes dl: "delimiter r \<noteq> None \<or> delimiterStr r \<noteq> []" and st: "stable (locate r)"
  shows "scan_inv s \<Longrightarrow> within_buffer (locate r) (pending s) \<Longrightarrow>
     Scan_loop (createSplitFunc r) s = (ok, s') \<Longrightarrow>
     (if pending s = [] then \<not> ok \<and> Scanner_Err s' = None
      else case locate r (pending s) of
             None \<Rightarrow> ok \<and> Text s' = pending s \<and> pending s' = [] \<and> scan_inv s'
           | Some (a, b) \<Rightarrow>
               ok \<and> Text s' = take a (pending s) \<and> pending s' = drop b (pending s) \<and>
               scan_inv s')"
proof (induction "createSplitFunc r" s rule: Scan_loop.induct)
  case (1 s)
  note IH = 1(1) and inv = 1(2) and fits = 1(3) and run = 1(4)
  define rest where "rest = (if s_err s = None then content (s_r s) else [])"
  have pend: "pending s = s_buf s @ rest"
    by (simp add: pending_def rest_def)
  show ?case
  proof (cases "try_split (createSplitFunc r) s")
    case (Return b s1)
    from try_split_clean_Return[OF dl Return] have
      ne: "s_buf s \<noteq> []" and b: "b" and
      same: "s_r s1 = s_r s" "s_err s1 = s_err s" "s_done s1 = s_done s" and
      cs: "case locate r (s_buf s) of
            Some (a, b) \<Rightarrow> s_buf s1 = drop b (s_buf s) \<and> Text s1 = take a (s_buf s)
          | None \<Rightarrow> s_err s \<noteq> None \<and> s_buf s1 = [] \<and> Text s1 = s_buf s"
      by simp_all
    from run Return have res: "ok = b" "s' = s1"
      by (simp_all add: Scan_loop.simps)
    have pne: "pending s \<noteq> []"
      using ne by (simp add: pend)
    have inv1: "scan_inv s1"
      using inv same by (simp add: scan_inv_def)
    show ?thesis
    proof (cases "locate r (s_buf s)")
      case None
      with cs have eof: "s_err s \<noteq> None" and s1: "s_buf s1 = []" "Text s1 = s_buf s"
        by simp_all
      from eof have p: "pending s = s_buf s"
        by (auto simp: pending_def)
      from eof s1 same have p1: "pending s1 = []"
        by (auto simp: pending_def)
      from None p pne res b s1 p1 inv1 show ?thesis by simp
    next
      case (Some ab)
      obtain a b' where ab: "ab = (a, b')" by (cases ab) auto
      from Some ab cs have s1: "s_buf s1 = drop b' (s_buf s)" "Text s1 = take a (s_buf s)"
        by simp_all
      from locate_bounds[OF Some[unfolded ab]] have bd: "a \<le> b'" "b' \<le> length (s_buf s)"
        by simp_all
      have loc: "locate r (pending s) = Some (a, b')"
        unfolding pend using stable_append[OF st Some[unfolded ab]] .
      have t: "take a (pending s) = take a (s_buf s)"
        using bd by (simp add: pend)
      have d: "pending s1 = drop b' (pending s)"
        using bd same s1 by (simp add: pending_def)
      from loc pne res b s1 t d inv1 show ?thesis by simp
    qed
  next
    case (More s1)
    from try_split_clean_More[OF dl More] have
      same: "s_buf s1 = s_buf s" "s_r s1 = s_r s" "s_err s1 = s_err s" "s_done s1 = s_done s" and
      cs: "s_buf s = [] \<or> (locate r (s_buf s) = None \<and> s_err s = None)"
      by simp_all
    have inv1: "scan_inv s1"
      using inv same by (simp add: scan_inv_def)
    show ?thesis
    proof (cases "s_err s = None")
      case False
      with cs have be: "s_buf s = []" by simp
      with False have p: "pending s = []" by (auto simp: pending_def)
      from False inv have eof: "s_err s = Some EOF" by (simp add: scan_inv_def)
      from run More False same have "ok = False" "s' = s1\<lparr>s_buf := []\<rparr>"
        by (simp_all add: Scan_loop.simps)
      with p eof same show ?thesis by (simp add: Scanner_Err_def)
    next
      case True
      have room: "\<not> MaxScanTokenSize \<le> length (s_buf s1)"
      proof (cases "s_buf s = []")
        case True
        then show ?thesis using same by (simp add: MaxScanTokenSize_def)
      next
        case False
        with cs have "locate r (s_buf s) = None" by simp
        from within_buffer_room[OF st fits[unfolded pend] this False] same show ?thesis
          by simp
      qed
      obtain c e rs where f: "fill 0 (s_r s1) = (c, e, rs)"
        by (cases "fill 0 (s_r s1)") auto
      define s2 where "s2 = (let s'' = s1\<lparr>s_r := rs, s_buf := s_buf s1 @ c\<rparr>
                    in case e of None \<Rightarrow> s'' | Some x \<Rightarrow> setErr x s'')"
      from run More True same room f have r2: "Scan_loop (createSplitFunc r) s2 = (ok, s')"
        by (simp add: s2_def Scan_loop.simps)
      from inv1 True same have cl: "clean (s_r s1)" by (simp add: scan_inv_def)
      note fc = fill_clean[OF cl f]
      have inv2: "scan_inv s2"
        using fc inv1 True same
        by (cases e) (auto simp: s2_def scan_inv_def setErr_def Let_def split: if_splits)
      have p2: "pending s2 = pending s"
        using fc True same
        by (cases e) (auto simp: s2_def pending_def setErr_def Let_def split: if_splits)
      have c1: "\<not> s_err s1 \<noteq> None" using True same by simp
      have fits2: "within_buffer (locate r) (pending s2)" using fits p2 by simp
      note IH2 = IH[OF More c1 room f[symmetric] refl, folded s2_def]
      have "if pending s2 = [] then \<not> ok \<and> Scanner_Err s' = None
            else case locate r (pending s2) of
                   None \<Rightarrow> ok \<and> Text s' = pending s2 \<and> pending s' = [] \<and> scan_inv s'
                 | Some (a, b) \<Rightarrow>
                     ok \<and> Text s' = take a (pending s2) \<and> pending s' = drop b (pending s2) \<and>
                     scan_inv s'"
        using IH2[OF inv2 fits2 r2] .
      then show ?thesis unfolding p2 .
    qed
  qed
qed

lemma scan_tokens_clean:
  "delimiter r \<noteq> None \<or> delimiterStr r \<noteq> [] \<Longrightarrow> stable (locate r) \<Longrightarrow>
   scan_inv s \<Longrightarrow> within_buffer (locate r) (pending s) \<Longrightarrow>
     \<exists>b sf. scan_tokens r s =
               (takeWhile (\<lambda>t. t \<noteq> []) (ref_split (locate r) (pending s)), b, sf) \<and>
            Scanner_Err sf = None"
proof (induction r s rule: scan_tokens.induct)
  case (1 r s)
  note IH = 1(1) and dl = 1(2) and st = 1(3) and inv = 1(4) and fits = 1(5)
  obtain ok s' where sc: "Scan (createSplitFunc r) s = (ok, s')"
    by (cases "Scan (createSplitFunc r) s") auto
  from inv have "\<not> s_done s" by (simp add: scan_inv_def)
  with sc have sl: "Scan_loop (createSplitFunc r) s = (ok, s')"
    by (simp add: Scan_def)
  note step = Scan_loop_clean[OF dl st inv fits sl]
  show ?case
  proof (cases "pending s = []")
    case True
    with step have "\<not> ok" "Scanner_Err s' = None" by simp_all
    with sc True show ?thesis
      by (auto simp: scan_tokens.simps ref_split.simps)
  next
    case ne: False
    show ?thesis
    proof (cases "locate r (pending s)")
      case None
      with step ne have ok: "ok" and t: "Text s' = pending s" and p': "pending s' = []"
        and inv': "scan_inv s'"
        by simp_all
      have "within_buffer (locate r) (pending s')"
        by (simp add: p' within_buffer.simps)
      from IH[OF sc[symmetric, unfolded ok[THEN eqTrueI]] refl _ dl st inv' this] t ne
      obtain b sf where "scan_tokens r s' =
          (takeWhile (\<lambda>t. t \<noteq> []) (ref_split (locate r) (pending s')), b, sf)"
        "Scanner_Err sf = None"
        by auto
      with sc ok t ne None p' show ?thesis
        by (auto simp: scan_tokens.simps[of r s] ref_split.simps[of _ "pending s"]
            ref_split.simps[of _ "[]"])
    next
      case (Some ab)
      obtain a b where ab: "ab = (a, b)" by (cases ab) auto
      with step ne Some have ok: "ok" and t: "Text s' = take a (pending s)"
        and p': "pending s' = drop b (pending s)" and inv': "scan_inv s'"
        by simp_all
      from locate_bounds[OF Some[unfolded ab]] have bd: "a \<le> b" "b \<le> length (pending s)"
        by simp_all
      show ?thesis
      proof (cases "a = 0")
        case True
        with t have "Text s' = []" by simp
        moreover from inv' have "Scanner_Err s' = None"
          by (auto simp: scan_inv_def Scanner_Err_def split: if_splits)
        ultimately show ?thesis
          using sc ok Some ab True ne
          by (auto simp: scan_tokens.simps[of r s] ref_split.simps[of _ "pending s"])
      next
        case False
        with bd t have tne: "Text s' \<noteq> []" by auto
        from False bd have b0: "b \<noteq> 0" by simp
        from fits Some ab ne False b0 have "within_buffer (locate r) (pending s')"
          by (subst (asm) within_buffer.simps) (simp add: p')
        from IH[OF sc[symmetric, unfolded ok[THEN eqTrueI]] refl tne dl st inv' this]
        obtain b' sf where "scan_tokens r s' =
            (takeWhile (\<lambda>t. t \<noteq> []) (ref_split (locate r) (pending s')), b', sf)"
          "Scanner_Err sf = None"
          by auto
        with sc ok t tne Some ab p' b0 ne show ?thesis
          by (auto simp: scan_tokens.simps[of r s] ref_split.simps[of _ "pending s"])
      qed
    qed
  qed
qed

lemma batch_plain:
  "normalizef r = None \<Longrightarrow> filterf r = None \<Longrightarrow> batch r ts tokens n e = (tokens @ ts, e)"
  by (induction ts arbitrary: tokens n) (simp_all add: Let_def normalized_def rejected_def)

lemma re_newline_stable:
  "delimiter r = Some re_newline \<Longrightarrow> stable (locate r)"
proof -
  have f: "FindIndex re_newline data = map_option (\<lambda>i. (i, i + 1)) (bytes_Index data [LF])" for data
    using bytes_Index_bounds[of data "[LF]"]
    by (cases "bytes_Index data [LF]") (auto simp: FindIndex_def re_newline_def)
  assume "delimiter r = Some re_newline"
  then show ?thesis
    unfolding stable_def locate_def
    by (auto simp: f dest: bytes_Index_append bytes_Index_local)
qed

text \<open>
  An input shorter than the scanner's buffer limit keeps every token within it.
\<close>

lemma within_buffer_short:
  "length (s :: string) < MaxScanTokenSize \<Longrightarrow> within_buffer (locate r) s"
proof (induction "locate r" s rule: within_buffer.induct)
  case (1 s)
  show ?case
  proof (cases "s = []")
    case True
    then show ?thesis by (simp add: within_buffer.simps)
  next
    case ne: False
    show ?thesis
    proof (cases "locate r s")
      case None
      with ne 1(2) show ?thesis by (simp add: within_buffer.simps)
    next
      case (Some ab)
      obtain a b where ab: "ab = (a, b)" by (cases ab) auto
      from locate_bounds[OF Some[unfolded ab]] have bd: "a \<le> b" "b \<le> length s" by simp_all
      show ?thesis
      proof (cases "a = 0 \<or> b = 0")
        case True
        with ne Some ab bd 1(2) show ?thesis
          by (subst within_buffer.simps) auto
      next
        case False
        from 1(2) have "length (drop b s) < MaxScanTokenSize" by simp
        from 1(1)[OF ne Some[unfolded ab] refl False this]
        have "within_buffer (locate r) (drop b s)" .
        with ne Some ab bd 1(2) False show ?thesis
          by (subst within_buffer.simps) auto
      qed
    qed
  qed
qed

text \<open>
  A compiled boundary that can match longer once more bytes arrive is not stable, and the
  tokens then depend on where the reads end: with the boundary of one or more blanks,
  \<open>"a  b"\<close> from one source gives \<open>["a", "b"]\<close>, and the same bytes from the two sources
  \<open>"a "\<close> and \<open>" b"\<close> give \<open>["a"]\<close>, the second blank being matched alone at the start of
  the buffer and the empty token ending the scan.
\<close>

lemma blanks_over_two_readers:
  "ReadTokens (words_reader (MultiReader [strings_NewReader ''a  b''])) = ([''a'', ''b''], None) \<and>
   ReadTokens (words_reader (MultiReader [strings_NewReader ''a '', strings_NewReader '' b'']))
     = ([''a''], None) \<and>
   ref_split (locate (words_reader [])) ''a  b'' = [''a'', ''b''] \<and>
   \<not> stable (locate (words_reader []))"
proof -
  have 1: "ReadTokens (words_reader (MultiReader [strings_NewReader ''a  b''])) = ([''a'', ''b''], None)"
    by (simp add: words_reader_def scan_eval ReadTokens_def ReadTokens_end_def
        normalized_def rejected_def re_blanks_def FindIndex_def)
  have 2: "ReadTokens (words_reader (MultiReader [strings_NewReader ''a '', strings_NewReader '' b'']))
     = ([''a''], None)"
    by (simp add: words_reader_def scan_eval ReadTokens_def ReadTokens_end_def
        normalized_def rejected_def re_blanks_def FindIndex_def)
  have 3: "ref_split (locate (words_reader [])) ''a  b'' = [''a'', ''b'']"
    by (simp add: ref_split.simps locate_def words_reader_def re_blanks_def FindIndex_def)
  have "locate (words_reader []) ''a '' = Some (1, 2)"
    "locate (words_reader []) (''a '' @ '' b'') = Some (1, 3)"
    by (simp_all add: locate_def words_reader_def re_blanks_def FindIndex_def)
  then have 4: "\<not> stable (locate (words_reader []))"
    unfolding stable_def by (metis Pair_inject option.inject numeral_eq_iff semiring_norm(88))
  from 1 2 3 4 show ?thesis by simp
qed

text \<open>
  C1, as the claim states it: the tokens returned are the reference split of the input.
  On \<open>"a,,b"\<close> with the boundary \<open>","\<close> the reference split is \<open>["a", "", "b"]\<close>, and
  \<open>ReadTokens\<close> returns \<open>["a"]\<close>: the loop breaks at the empty token.
\<close>

theorem ReadTokens_not_reference_split:
  "ReadTokens (example_reader '','' (strings_NewReader ''a,,b'')) = ([''a''], None) \<and>
   ref_split (locate (example_reader '','' (strings_NewReader ''a,,b''))) ''a,,b''
     = [''a'', [], ''b''] \<and>
   fst (ReadTokens (example_reader '','' (strings_NewReader ''a,,b''))) \<noteq>
     ref_split (locate (example_reader '','' (strings_NewReader ''a,,b''))) ''a,,b''"
  by (simp add: example_reader_def scan_eval ReadTokens_def ReadTokens_end_def
      normalized_def rejected_def ref_split.simps locate_def)

text \<open>
  C1, amended. Let a token boundary be configured, literal or compiled and stable, with no
  normalizer and no filter; let the source deliver its bytes without failure, cut into reads
  in any way; and let the input fit the scanner's buffer. Then \<open>ReadTokens\<close> returns, with no
  error, the reference split of the input on the boundary up to its first empty token: the
  longest prefix of non-empty tokens.
\<close>

theorem ReadTokens_reference_split:
  assumes "delimiter r \<noteq> None \<or> delimiterStr r \<noteq> []"
    and "normalizef r = None" and "filterf r = None"
    and "stable (locate r)"
    and "clean (reader r)"
    and "within_buffer (locate r) (content (reader r))"
  shows "ReadTokens r =
           (takeWhile (\<lambda>t. t \<noteq> []) (ref_split (locate r) (content (reader r))), None)"
proof -
  have inv: "scan_inv (NewScanner (reader r))"
    using assms(5) by (simp add: scan_inv_def NewScanner_def)
  have p: "pending (NewScanner (reader r)) = content (reader r)"
    by (simp add: pending_def NewScanner_def)
  from scan_tokens_clean[OF assms(1,4) inv] assms(6) p
  obtain b sf where st: "scan_tokens r (NewScanner (reader r)) =
      (takeWhile (\<lambda>t. t \<noteq> []) (ref_split (locate r) (content (reader r))), b, sf)"
    and e: "Scanner_Err sf = None"
    by auto
  from e have "end_err r sf = None" by (simp add: end_err_def)
  then show ?thesis
    by (simp add: ReadTokens_def ReadTokens_loop_batch st batch_plain[OF assms(2,3)])
qed

theorem ReadTokens_reference_split_witness:
  "ReadTokens (example_reader '','' two_reads) = ([''ab'', ''cd'', ''e''], None) \<and>
   ReadTokens lines_by_regexp = ([''one'', ''two''], None)"
proof -
  let ?r = "example_reader '','' two_reads"
  have h1: "delimiter ?r \<noteq> None \<or> delimiterStr ?r \<noteq> []"
    by (simp add: example_reader_def)
  have h2: "normalizef ?r = None" "filterf ?r = None"
    by (simp_all add: example_reader_def)
  have h3: "stable (locate ?r)"
    by (rule literal_stable) (simp add: example_reader_def)
  have h4: "clean (reader ?r)"
    by (simp add: example_reader_def two_reads_def)
  have c: "content (reader ?r) = ''ab,cd,e''"
    by (simp add: example_reader_def two_reads_def)
  have h5: "within_buffer (locate ?r) (content (reader ?r))"
    unfolding c
    by (simp add: within_buffer.simps locate_def example_reader_def MaxScanTokenSize_def)
  have v: "takeWhile (\<lambda>t. t \<noteq> []) (ref_split (locate ?r) (content (reader ?r)))
             = [''ab'', ''cd'', ''e'']"
    unfolding c by (simp add: ref_split.simps locate_def example_reader_def)
  let ?q = lines_by_regexp
  have q: "?q = \<lparr>reader = [(''one'' @ [LF] @ ''t'', None), (''wo'', Some EOF)],
      delimiter = Some re_newline, delimiterStr = [],
      normalizef = None, filterf = None, FailOnError = True, FailOnInvalid = False\<rparr>"
    by (simp add: lines_by_regexp_def SetDelimiter_def SetNormalizer_def SetReaders_def
        NewReader_def)
  have g1: "delimiter ?q \<noteq> None \<or> delimiterStr ?q \<noteq> []"
    by (simp add: q)
  have g2: "normalizef ?q = None" "filterf ?q = None"
    by (simp_all add: q)
  have g3: "stable (locate ?q)"
    by (rule re_newline_stable) (simp add: q)
  have g4: "clean (reader ?q)"
    by (simp add: q)
  have cq: "content (reader ?q) = ''one'' @ [LF] @ ''two''"
    by (simp add: q)
  have g5: "within_buffer (locate ?q) (content (reader ?q))"
    unfolding cq
    by (simp add: within_buffer.simps locate_def q FindIndex_def re_newline_def
        MaxScanTokenSize_def)
  have w: "takeWhile (\<lambda>t. t \<noteq> []) (ref_split (locate ?q) (content (reader ?q)))
             = [''one'', ''two'']"
    unfolding cq by (simp add: ref_split.simps locate_def q FindIndex_def re_newline_def)
  from ReadTokens_reference_split[OF h1 h2 h3 h4 h5]
    ReadTokens_reference_split[OF g1 g2 g3 g4 g5]
  show ?thesis
    unfolding v w by simp
qed

section \<open>Closing and building ReaderClosers\<close>

text \<open>The loop of \<open>Close\<close> from any \<open>firstErr\<close>.\<close>

lemma Close_loop_eq:
  "Close_loop cl cs firstErr w =
     ((case firstErr of
         None \<Rightarrow> first_failure (close_results cl cs (closes w))
       | Some x \<Rightarrow> Some x),
      w\<lparr>closes := closes_after cs (closes w), close_log := close_log w @ cs\<rparr>)"
proof (induction cs arbitrary: firstErr w)
  case Nil
  then show ?case
    by (simp add: first_failure_def split: option.splits)
next
  case (Cons c cs)
  show ?case
    by (cases "cl c (closes w c)"; cases firstErr)
      (simp_all add: Cons closer_Close_def first_failure_def fun_upd_def)
qed

text \<open>
  C9. \<open>Close\<close> calls \<open>Close\<close> on every tracked resource, in registration order, whatever
  the earlier calls returned (the log grows by exactly \<open>rc.closers\<close>); it returns the first
  failure among the results, wrapped as a Close error, and \<open>nil\<close> when there is none; and it
  empties the list of tracked resources.
\<close>

theorem Close_attempts_all_returns_first:
  "Close cl rc w =
     (first_failure (close_results cl (closers rc) (closes w)),
      rc\<lparr>closers := []\<rparr>,
      w\<lparr>closes := closes_after (closers rc) (closes w),
        close_log := close_log w @ closers rc\<rparr>)"
  by (simp add: Close_def Close_loop_eq)

theorem Close_example:
  "Close cl_example \<lparr>Reader_ptr = 0, closers = [1, 2, 3]\<rparr> world0 =
     (Some (newErrClose (Failure ''one'')), \<lparr>Reader_ptr = 0, closers = []\<rparr>,
      world0\<lparr>closes := closes_after [1, 2, 3] (closes world0), close_log := [1, 2, 3]\<rparr>)"
  using Close_attempts_all_returns_first
    [of cl_example "\<lparr>Reader_ptr = 0, closers = [1, 2, 3]\<rparr>" world0]
  by (simp add: first_failure_def cl_example_def world0_def)

lemma MultiReader_single: "MultiReader [[(c, None)]] = [(c, None)]"
  by simp

text \<open>
  C10. The builders of the ReaderCloser copy the struct, and with it the pointer to the one
  Reader: the setter they call on the copy writes to the Reader of the receiver. After
  \<open>NewReaderCloser().FromString("abc")\<close> the receiver reads from \<open>"abc"\<close> too, no longer from
  its own input; after \<open>WithDelimiter\<close> the receiver has the new delimiter; and \<open>FromString\<close>
  on a receiver that tracks resource 7 closes that resource, which the receiver still
  tracks.
\<close>

theorem ReaderCloser_builders_modify_receiver:
  "(case NewReaderCloser [(''x'', None)] world0 of
      (rc, w1) \<Rightarrow>
        (case ReaderCloser_FromString cl rc ''abc'' w1 of
           (newR, w2) \<Rightarrow>
             Reader_ptr newR = Reader_ptr rc \<and>
             reader_v1 (heap w1 (Reader_ptr rc)) = [(''x'', None)] \<and>
             reader_v1 (heap w2 (Reader_ptr rc)) = [(''abc'', None)])) \<and>
   (case NewReaderCloser [(''x'', None)] world0 of
      (rc, w1) \<Rightarrow>
        (case ReaderCloser_WithDelimiter rc (Some (SetStr DefaultDelimiter_v1 '','')) w1 of
           (newR, w2) \<Rightarrow>
             delimiter_v1 (heap w1 (Reader_ptr rc)) = Some \<lparr>regexpr = None, str_v1 = [LF]\<rparr> \<and>
             delimiter_v1 (heap w2 (Reader_ptr rc)) = Some \<lparr>regexpr = None, str_v1 = '',''\<rparr>)) \<and>
   (case NewReaderCloser [(''x'', None)] world0 of
      (rc0, w0) \<Rightarrow>
        (case ReaderCloser_WithReaders cl rc0 [([(''file'', None)], Some 7)] w0 of
           (rc, w1) \<Rightarrow>
             (case ReaderCloser_FromString cl rc ''abc'' w1 of
                (newR, w2) \<Rightarrow>
                  closers rc = [7] \<and> closes w1 7 = 0 \<and> closes w2 7 = 1 \<and> close_log w2 = [7])))"
  by (simp add: NewReaderCloser_def world0_def ReaderCloser_FromString_def
      ReaderCloser_SetReaders_def Close_def closer_Close_def SetReaders_v1_def NewReader_v1_def
      strings_NewReader_def ReaderCloser_WithDelimiter_def SetDelimiter_v1_def SetStr_def
      DefaultDelimiter_v1_def ReaderCloser_WithReaders_def List.map_filter_def
      split: prod.splits)

end
